theory Spec2Isabelle
  imports Main "HOL-Library.Signed_Division" "HOL-Library.Word"
begin

unbundle bit_operations_syntax

section \<open>The command buffer helper: data model\<close>

text \<open>
  The development embeds \<^verbatim>\<open>CommandBufferHelper\<close> (the implementation file of
  \<^verbatim>\<open>gpu/command_buffer/client/cmd_buffer_helper\<close>). The helper is the client side
  of a ring of fixed-size entries shared with a service; the service is reached only through
  the \<^verbatim>\<open>CommandBuffer\<close> interface.

  The \<^verbatim>\<open>int32\<close> members are modelled as \<open>int\<close>. The two operators whose C++ meaning
  differs from HOL's on integers are written with \<open>sdiv\<close> and \<open>smod\<close> (truncation towards
  zero), and a zero divisor is a fault of the model, as it is a trap of the program. The sum
  \<^verbatim>\<open>put_ + count\<close> of \<^verbatim>\<open>WaitForAvailableEntries\<close>, whose second summand is the
  caller's, is taken in \<^verbatim>\<open>int32\<close> with wrap-around (\<open>add_int32\<close>). The token increment
  at \<open>0x7FFFFFFF\<close> leaves the range too, and there the mask gives \<open>0\<close> on wrapped and on
  unbounded integers alike. The \<^verbatim>\<open>DCHECK\<close>s are assertions of debug builds and are not part of
  the model; \<^verbatim>\<open>CHECK\<close> and \<^verbatim>\<open>LOG(FATAL)\<close> end the program in every build and are
  faults of the model.
\<close>

text \<open>\<^verbatim>\<open>CommandBuffer::State\<close>, as far as the helper reads it.\<close>

record State =
  state_num_entries :: int
  state_get_offset :: int
  state_put_offset :: int
  state_token :: int
  state_error :: int

text \<open>Modelled from the spec: \<^verbatim>\<open>error::kNoError\<close> is defined with the error codes,
  which are not among the sources; an error is "a non-zero error code".\<close>

definition kNoError :: int where
  "kNoError = 0"

text \<open>Modelled from the spec: \<^verbatim>\<open>error::IsError\<close> is defined with the error codes,
  which are not among the sources; an error is "a non-zero error code".\<close>

definition IsError :: "int \<Rightarrow> bool" where
  "IsError e = (e \<noteq> kNoError)"

text \<open>
  The service is outside the program, and \<^verbatim>\<open>CommandBuffer\<close> is an abstract interface
  to it (the channel of the specification). It is modelled by what the helper can observe of it:
  the state it reported last, the log of the calls made to it, and the answers it is going to
  give to the calls that wait for one (\<open>create_ids\<close> for \<^verbatim>\<open>CreateTransferBuffer\<close>,
  \<open>replies\<close> for \<^verbatim>\<open>GetState\<close> and \<^verbatim>\<open>FlushSync\<close>). The answers are arbitrary:
  nothing is assumed about the service. A call that waits for an answer the service never
  gives does not return.
\<close>

datatype channel_call =
    CreateTransferBufferCall int
  | SetGetBufferCall int
  | GetStateCall
  | FlushCall int
  | FlushSyncCall int int
  | DestroyTransferBufferCall int

record channel =
  last_state :: State
  calls :: "channel_call list"
  create_ids :: "int list"
  replies :: "State list"

definition channel_CreateTransferBuffer :: "int \<Rightarrow> channel \<Rightarrow> (int \<times> channel) option" where
  "channel_CreateTransferBuffer sz cb =
     (case create_ids cb of
        [] \<Rightarrow> None
      | i # is \<Rightarrow>
          Some (i, cb\<lparr>calls := calls cb @ [CreateTransferBufferCall sz], create_ids := is\<rparr>))"

definition channel_SetGetBuffer :: "int \<Rightarrow> channel \<Rightarrow> channel" where
  "channel_SetGetBuffer i cb = cb\<lparr>calls := calls cb @ [SetGetBufferCall i]\<rparr>"

definition channel_DestroyTransferBuffer :: "int \<Rightarrow> channel \<Rightarrow> channel" where
  "channel_DestroyTransferBuffer i cb = cb\<lparr>calls := calls cb @ [DestroyTransferBufferCall i]\<rparr>"

definition channel_GetState :: "channel \<Rightarrow> (State \<times> channel) option" where
  "channel_GetState cb =
     (case replies cb of
        [] \<Rightarrow> None
      | r # rs \<Rightarrow>
          Some (r, cb\<lparr>last_state := r, calls := calls cb @ [GetStateCall], replies := rs\<rparr>))"

definition channel_Flush :: "int \<Rightarrow> channel \<Rightarrow> channel" where
  "channel_Flush p cb = cb\<lparr>calls := calls cb @ [FlushCall p]\<rparr>"

definition channel_FlushSync :: "int \<Rightarrow> int \<Rightarrow> channel \<Rightarrow> (State \<times> channel) option" where
  "channel_FlushSync p g cb =
     (case replies cb of
        [] \<Rightarrow> None
      | r # rs \<Rightarrow>
          Some (r, cb\<lparr>last_state := r, calls := calls cb @ [FlushSyncCall p g], replies := rs\<rparr>))"

text \<open>What an entry of the ring holds: nothing yet, the header of a no-op record of the
  given length, or a set-token command.\<close>

datatype entry = Unwritten | NoopHeader int | SetTokenCmd int

text \<open>
  The constants of the class header and of the command format, none of which is defined in
  the implementation file: the two divisors of the automatic flush, the longest no-op record,
  \<^verbatim>\<open>sizeof(CommandBufferEntry)\<close>, the width of \<^verbatim>\<open>size_t\<close> and the number of
  entries of a set-token command. They are parameters of the model: every theorem below is
  stated for all values of them.
\<close>

record constants =
  kAutoFlushSmall :: int
  kAutoFlushBig :: int
  kMaxSize :: int
  kEntrySize :: int
  kSizeBits :: nat
  kSetTokenEntries :: int

text \<open>The values used in the worked examples.\<close>

definition example_constants :: constants where
  "example_constants =
     \<lparr>kAutoFlushSmall = 16, kAutoFlushBig = 2, kMaxSize = 2097151, kEntrySize = 4,
      kSizeBits = 64, kSetTokenEntries = 1\<rparr>"

text \<open>
  The members of the helper, in the order of the constructor's initialiser list, followed by
  \<open>flush_generation\<close> (incremented by the flushes) and by \<open>clock_now\<close>, the value that
  \<^verbatim>\<open>clock()\<close> returns.
  The member \<open>commands_issued\<close> and \<^verbatim>\<open>PeriodicFlushCheck\<close> exist only under a
  compile-time switch and are left out.
\<close>

record helper =
  command_buffer :: channel
  ring_buffer_id :: int
  ring_buffer_size :: int
  entries :: "int \<Rightarrow> entry"
  total_entry_count :: int
  immediate_entry_count :: int
  token :: int
  put :: int
  last_put_sent :: int
  usable :: bool
  context_lost :: bool
  flush_automatically :: bool
  last_flush_time :: int
  flush_generation :: "32 word"
  clock_now :: int

text \<open>The ways in which a call does not return normally. The fatal log carries the helper
  as it is when the program ends, and with it the log of the calls made until then.\<close>

datatype fault =
    FatalLog helper
  | CheckFailure
  | DivisionByZero
  | ServiceSilent
  | Diverges

text \<open>The constructor: it makes no call to the service. Its initialiser list does not
  mention \<open>flush_generation\<close>: the value the member starts with is not determined by the
  program and is the argument \<open>gen\<close>.\<close>

definition CommandBufferHelper :: "channel \<Rightarrow> int \<Rightarrow> 32 word \<Rightarrow> helper" where
  "CommandBufferHelper cb now gen =
     \<lparr>command_buffer = cb, ring_buffer_id = - 1, ring_buffer_size = 0,
      entries = (\<lambda>_. Unwritten), total_entry_count = 0, immediate_entry_count = 0,
      token = 0, put = 0, last_put_sent = 0, usable = True, context_lost = False,
      flush_automatically = True, last_flush_time = 0, flush_generation = gen,
      clock_now = now\<rparr>"

text \<open>
  The accessors and small members below are inline in the class header, which is not among
  the sources. \<^verbatim>\<open>usable()\<close> reads the member \<open>usable\<close>, which the constructor sets.
\<close>

text \<open>Modelled from the spec: \<^verbatim>\<open>ClearUsable()\<close> is declared in the class header, which
  is not among the sources; it is the transition that "marks the helper permanently unusable
  (usable = false)".\<close>

definition ClearUsable :: "helper \<Rightarrow> helper" where
  "ClearUsable h = h\<lparr>usable := False\<rparr>"

text \<open>Modelled from the spec: \<^verbatim>\<open>HaveRingBuffer()\<close> is declared in the class header,
  which is not among the sources; a region "is installed" when the identifier is not the
  \<open>-1\<close> that the constructor and \<^verbatim>\<open>FreeResources\<close> store.\<close>

definition HaveRingBuffer :: "helper \<Rightarrow> bool" where
  "HaveRingBuffer h = (ring_buffer_id h \<noteq> - 1)"

text \<open>Modelled from the spec: \<^verbatim>\<open>get_offset()\<close> is declared in the class header, which
  is not among the sources; it is the "service-reported get", the consumed offset of the
  state that the channel reported last.\<close>

definition get_offset :: "helper \<Rightarrow> int" where
  "get_offset h = state_get_offset (last_state (command_buffer h))"

text \<open>Modelled from the spec: \<^verbatim>\<open>last_token_read()\<close> is declared in the class header,
  which is not among the sources; it is "the highest value the service has acknowledged", the
  token of the state that the channel reported last.\<close>

definition last_token_read :: "helper \<Rightarrow> int" where
  "last_token_read h = state_token (last_state (command_buffer h))"

section \<open>The operations\<close>

subsection \<open>CalcImmediateEntries\<close>

definition CalcImmediateEntries :: "constants \<Rightarrow> int \<Rightarrow> helper \<Rightarrow> fault + helper" where
  "CalcImmediateEntries k waiting_count h =
     (if \<not> usable h \<or> \<not> HaveRingBuffer h then Inr (h\<lparr>immediate_entry_count := 0\<rparr>)
      else
        let curr_get = get_offset h;
            h1 = (if curr_get > put h
                  then h\<lparr>immediate_entry_count := curr_get - put h - 1\<rparr>
                  else h\<lparr>immediate_entry_count :=
                           total_entry_count h - put h - (if curr_get = 0 then 1 else 0)\<rparr>)
        in if flush_automatically h1 then
             (let d = (if curr_get = last_put_sent h1 then kAutoFlushSmall k
                       else kAutoFlushBig k)
              in if d = 0 \<or> total_entry_count h1 = 0 then Inl DivisionByZero
                 else
                   let limit = total_entry_count h1 sdiv d;
                       pending = (put h1 + total_entry_count h1 - last_put_sent h1)
                                   smod total_entry_count h1
                   in if pending > 0 \<and> pending \<ge> limit
                      then Inr (h1\<lparr>immediate_entry_count := 0\<rparr>)
                      else
                        let limit1 = limit - pending;
                            limit2 = (if limit1 < waiting_count then waiting_count else limit1)
                        in Inr (h1\<lparr>immediate_entry_count :=
                                     (if immediate_entry_count h1 > limit2 then limit2
                                      else immediate_entry_count h1)\<rparr>))
           else Inr h1)"

definition SetAutomaticFlushes :: "constants \<Rightarrow> bool \<Rightarrow> helper \<Rightarrow> fault + helper" where
  "SetAutomaticFlushes k enabled h =
     CalcImmediateEntries k 0 (h\<lparr>flush_automatically := enabled\<rparr>)"


subsection \<open>Allocating and freeing the ring\<close>

text \<open>\<^verbatim>\<open>ring_buffer_size_ / sizeof(CommandBufferEntry)\<close>: the division is made in
  \<^verbatim>\<open>size_t\<close> and the quotient is narrowed to \<^verbatim>\<open>int32\<close>.\<close>

definition num_ring_buffer_entries :: "constants \<Rightarrow> int \<Rightarrow> int" where
  "num_ring_buffer_entries k sz =
     signed_take_bit 31 (take_bit (kSizeBits k) sz div kEntrySize k)"

definition AllocateRingBuffer :: "constants \<Rightarrow> helper \<Rightarrow> fault + bool \<times> helper" where
  "AllocateRingBuffer k h =
     (if \<not> usable h then Inr (False, h)
      else if HaveRingBuffer h then Inr (True, h)
      else
        case channel_CreateTransferBuffer (ring_buffer_size h) (command_buffer h) of
          None \<Rightarrow> Inl ServiceSilent
        | Some (i, cb1) \<Rightarrow>
            if i < 0 then Inr (False, ClearUsable (h\<lparr>command_buffer := cb1\<rparr>))
            else
              (case channel_GetState (channel_SetGetBuffer i cb1) of
                 None \<Rightarrow> Inl ServiceSilent
               | Some (state, cb2) \<Rightarrow>
                   (let h2 = h\<lparr>command_buffer := cb2, ring_buffer_id := i,
                                entries := (\<lambda>_. Unwritten)\<rparr>
                    in if kEntrySize k = 0 then Inl DivisionByZero
                       else if num_ring_buffer_entries k (ring_buffer_size h2)
                                 > state_num_entries state
                       then Inr (False, ClearUsable h2)
                       else
                         (case CalcImmediateEntries k 0
                                 (h2\<lparr>total_entry_count :=
                                        num_ring_buffer_entries k (ring_buffer_size h2),
                                      put := state_put_offset state\<rparr>) of
                            Inl e \<Rightarrow> Inl e
                          | Inr h3 \<Rightarrow> Inr (True, h3)))))"

definition FreeResources :: "constants \<Rightarrow> helper \<Rightarrow> fault + helper" where
  "FreeResources k h =
     (if HaveRingBuffer h
      then CalcImmediateEntries k 0
             (h\<lparr>command_buffer :=
                   channel_DestroyTransferBuffer (ring_buffer_id h) (command_buffer h),
                 ring_buffer_id := - 1\<rparr>)
      else Inr h)"

definition FreeRingBuffer :: "constants \<Rightarrow> helper \<Rightarrow> fault + helper" where
  "FreeRingBuffer k h =
     (if put h = get_offset h \<or> IsError (state_error (last_state (command_buffer h)))
      then FreeResources k h
      else Inl CheckFailure)"

definition Initialize :: "constants \<Rightarrow> int \<Rightarrow> helper \<Rightarrow> fault + bool \<times> helper" where
  "Initialize k sz h = AllocateRingBuffer k (h\<lparr>ring_buffer_size := sz\<rparr>)"

text \<open>\<^verbatim>\<open>IsContextLost\<close>: \<^verbatim>\<open>GetLastError\<close> is the error of the state reported last.\<close>

definition IsContextLost :: "helper \<Rightarrow> bool \<times> helper" where
  "IsContextLost h =
     (let h1 = (if \<not> context_lost h
                then h\<lparr>context_lost := IsError (state_error (last_state (command_buffer h)))\<rparr>
                else h)
      in (context_lost h1, h1))"

subsection \<open>Flushing\<close>

definition FlushSync :: "constants \<Rightarrow> helper \<Rightarrow> fault + bool \<times> helper" where
  "FlushSync k h =
     (if \<not> usable h then Inr (False, h)
      else
        let h1 = (if put h = total_entry_count h then h\<lparr>put := 0\<rparr> else h);
            h2 = h1\<lparr>last_flush_time := clock_now h1, last_put_sent := put h1\<rparr>
        in case channel_FlushSync (put h2) (get_offset h2) (command_buffer h2) of
             None \<Rightarrow> Inl ServiceSilent
           | Some (state, cb) \<Rightarrow>
               (case CalcImmediateEntries k 0
                       (h2\<lparr>command_buffer := cb,
                           flush_generation := flush_generation h2 + 1\<rparr>) of
                  Inl e \<Rightarrow> Inl e
                | Inr h3 \<Rightarrow> Inr (state_error state = kNoError, h3)))"

definition Flush :: "constants \<Rightarrow> helper \<Rightarrow> fault + helper" where
  "Flush k h =
     (let h1 = (if put h = total_entry_count h then h\<lparr>put := 0\<rparr> else h)
      in if usable h1 \<and> last_put_sent h1 \<noteq> put h1
         then CalcImmediateEntries k 0
                (h1\<lparr>last_flush_time := clock_now h1, last_put_sent := put h1,
                    command_buffer := channel_Flush (put h1) (command_buffer h1),
                    flush_generation := flush_generation h1 + 1\<rparr>)
         else Inr h1)"


text \<open>
  The loops of the helper call \<^verbatim>\<open>FlushSync\<close> once per iteration and go on only when it
  returned true, that is after the service has given one more of its answers. They are
  defined by recursion on the answers that are left; when none is left the pending call does
  not return, which is the result \<open>Inl ServiceSilent\<close>.
\<close>

function Finish_loop :: "constants \<Rightarrow> helper \<Rightarrow> fault + bool \<times> helper" where
  "Finish_loop k h =
     (case FlushSync k h of
        Inl e \<Rightarrow> Inl e
      | Inr (ok, h1) \<Rightarrow>
          if \<not> ok then Inr (False, h1)
          else if put h1 \<noteq> get_offset h1 then Finish_loop k h1
          else Inr (True, h1))"
  by pat_completeness auto
termination
proof (relation "measure (\<lambda>(k, h). length (replies (command_buffer h)))", goal_cases)
  case 1
  show ?case by simp
next
  case (2 k h r ok h1)
  have keep: "command_buffer g' = command_buffer g"
    if "CalcImmediateEntries k 0 g = Inr g'" for g g'
    using that by (auto simp: CalcImmediateEntries_def Let_def split: if_splits)
  from 2 have "FlushSync k h = Inr (True, h1)" by simp
  then have "length (replies (command_buffer h1)) < length (replies (command_buffer h))"
    by (auto simp: FlushSync_def Let_def channel_FlushSync_def
        split: if_splits option.splits list.splits sum.splits dest!: keep)
  then show ?case by simp
qed

declare Finish_loop.simps [simp del]

definition Finish :: "constants \<Rightarrow> helper \<Rightarrow> fault + bool \<times> helper" where
  "Finish k h =
     (if \<not> usable h then Inr (False, h)
      else if put h = get_offset h then Inr (True, h)
      else Finish_loop k h)"

subsection \<open>Waiting for a token\<close>

function WaitForToken_loop :: "constants \<Rightarrow> int \<Rightarrow> helper \<Rightarrow> fault + helper" where
  "WaitForToken_loop k tok h =
     (if last_token_read h < tok then
        if get_offset h = put h then Inl (FatalLog h)
        else
          (case FlushSync k h of
             Inl e \<Rightarrow> Inl e
           | Inr (ok, h1) \<Rightarrow> if \<not> ok then Inr h1 else WaitForToken_loop k tok h1)
      else Inr h)"
  by pat_completeness auto
termination
proof (relation "measure (\<lambda>(k, tok, h). length (replies (command_buffer h)))", goal_cases)
  case 1
  show ?case by simp
next
  case (2 k tok h r ok h1)
  have keep: "command_buffer g' = command_buffer g"
    if "CalcImmediateEntries k 0 g = Inr g'" for g g'
    using that by (auto simp: CalcImmediateEntries_def Let_def split: if_splits)
  from 2 have "FlushSync k h = Inr (True, h1)" by simp
  then have "length (replies (command_buffer h1)) < length (replies (command_buffer h))"
    by (auto simp: FlushSync_def Let_def channel_FlushSync_def
        split: if_splits option.splits list.splits sum.splits dest!: keep)
  then show ?case by simp
qed

declare WaitForToken_loop.simps [simp del]

definition WaitForToken :: "constants \<Rightarrow> int \<Rightarrow> helper \<Rightarrow> fault + helper" where
  "WaitForToken k tok h =
     (if \<not> usable h \<or> \<not> HaveRingBuffer h then Inr h
      else if tok < 0 then Inr h
      else if tok > token h then Inr h
      else WaitForToken_loop k tok h)"

subsection \<open>Waiting for entries\<close>

text \<open>The sum of two \<^verbatim>\<open>int32\<close> in \<^verbatim>\<open>int32\<close>: what leaves the range wraps around.\<close>

definition add_int32 :: "int \<Rightarrow> int \<Rightarrow> int" where
  "add_int32 a b = signed_take_bit 31 (a + b)"

text \<open>The first loop of \<^verbatim>\<open>WaitForAvailableEntries\<close>: it leaves with \<open>False\<close> when a
  flush failed (the function then returns), with \<open>True\<close> when the condition ended it.\<close>

function wrap_wait_loop :: "constants \<Rightarrow> helper \<Rightarrow> fault + bool \<times> helper" where
  "wrap_wait_loop k h =
     (if get_offset h > put h \<or> get_offset h = 0 then
        (case FlushSync k h of
           Inl e \<Rightarrow> Inl e
         | Inr (ok, h1) \<Rightarrow> if \<not> ok then Inr (False, h1) else wrap_wait_loop k h1)
      else Inr (True, h))"
  by pat_completeness auto
termination
proof (relation "measure (\<lambda>(k, h). length (replies (command_buffer h)))", goal_cases)
  case 1
  show ?case by simp
next
  case (2 k h r ok h1)
  have keep: "command_buffer g' = command_buffer g"
    if "CalcImmediateEntries k 0 g = Inr g'" for g g'
    using that by (auto simp: CalcImmediateEntries_def Let_def split: if_splits)
  from 2 have "FlushSync k h = Inr (True, h1)" by simp
  then have "length (replies (command_buffer h1)) < length (replies (command_buffer h))"
    by (auto simp: FlushSync_def Let_def channel_FlushSync_def
        split: if_splits option.splits list.splits sum.splits dest!: keep)
  then show ?case by simp
qed

declare wrap_wait_loop.simps [simp del]

text \<open>Modelled from the spec: \<^verbatim>\<open>cmd::Noop::Set\<close> belongs to the command format, which
  is not among the sources; it puts a no-op record of the given number of entries at the
  given offset ("the remaining tail entries are filled with no-op records").\<close>

definition Noop_Set :: "(int \<Rightarrow> entry) \<Rightarrow> int \<Rightarrow> int \<Rightarrow> int \<Rightarrow> entry" where
  "Noop_Set es p n = es(p := NoopHeader n)"

text \<open>The loop that inserts the no-ops. With \<open>kMaxSize \<le> 0\<close> its counter never reaches
  zero.\<close>

function noop_fill :: "constants \<Rightarrow> int \<Rightarrow> helper \<Rightarrow> fault + helper" where
  "noop_fill k num_entries h =
     (if num_entries > 0 then
        (let num_to_skip = min (kMaxSize k) num_entries
         in if num_to_skip \<le> 0 then Inl Diverges
            else noop_fill k (num_entries - num_to_skip)
                   (h\<lparr>entries := Noop_Set (entries h) (put h) num_to_skip,
                      put := put h + num_to_skip\<rparr>))
      else Inr h)"
  by pat_completeness auto
termination
  by (relation "measure (\<lambda>(k, n, h). nat n)") auto

declare noop_fill.simps [simp del]

text \<open>The last loop of \<^verbatim>\<open>WaitForAvailableEntries\<close>.\<close>

function wait_entries_loop :: "constants \<Rightarrow> int \<Rightarrow> helper \<Rightarrow> fault + helper" where
  "wait_entries_loop k count h =
     (if immediate_entry_count h < count then
        (case FlushSync k h of
           Inl e \<Rightarrow> Inl e
         | Inr (ok, h1) \<Rightarrow>
             if \<not> ok then Inr h1
             else
               (case CalcImmediateEntries k count h1 of
                  Inl e \<Rightarrow> Inl e
                | Inr h2 \<Rightarrow> wait_entries_loop k count h2))
      else Inr h)"
  by pat_completeness auto
termination
proof (relation "measure (\<lambda>(k, count, h). length (replies (command_buffer h)))", goal_cases)
  case 1
  show ?case by simp
next
  case (2 k count h r ok h1 h2)
  have keep: "command_buffer g' = command_buffer g"
    if "CalcImmediateEntries k w g = Inr g'" for w g g'
    using that by (auto simp: CalcImmediateEntries_def Let_def split: if_splits)
  from 2 have "FlushSync k h = Inr (True, h1)" by simp
  then have "length (replies (command_buffer h1)) < length (replies (command_buffer h))"
    by (auto simp: FlushSync_def Let_def channel_FlushSync_def
        split: if_splits option.splits list.splits sum.splits dest!: keep)
  moreover from 2 have "command_buffer h2 = command_buffer h1" by (simp add: keep)
  ultimately show ?case by simp
qed

declare wait_entries_loop.simps [simp del]

text \<open>The block that wraps: wait for the service, insert the no-ops, restart at \<open>0\<close>.
  \<open>False\<close> stands for the early return.\<close>

definition wrap_around :: "constants \<Rightarrow> helper \<Rightarrow> fault + bool \<times> helper" where
  "wrap_around k h =
     (case wrap_wait_loop k h of
        Inl e \<Rightarrow> Inl e
      | Inr (ok, h1) \<Rightarrow>
          if \<not> ok then Inr (False, h1)
          else
            (case noop_fill k (total_entry_count h1 - put h1) h1 of
               Inl e \<Rightarrow> Inl e
             | Inr h2 \<Rightarrow> Inr (True, h2\<lparr>put := 0\<rparr>)))"

text \<open>The block after it: try without a flush, then with a shallow flush, then wait.\<close>

definition wait_for_immediate :: "constants \<Rightarrow> int \<Rightarrow> helper \<Rightarrow> fault + helper" where
  "wait_for_immediate k count h =
     (case CalcImmediateEntries k count h of
        Inl e \<Rightarrow> Inl e
      | Inr h1 \<Rightarrow>
          if immediate_entry_count h1 < count then
            (case Flush k h1 of
               Inl e \<Rightarrow> Inl e
             | Inr h2 \<Rightarrow>
                 (case CalcImmediateEntries k count h2 of
                    Inl e \<Rightarrow> Inl e
                  | Inr h3 \<Rightarrow> wait_entries_loop k count h3))
          else Inr h1)"

definition WaitForAvailableEntries :: "constants \<Rightarrow> int \<Rightarrow> helper \<Rightarrow> fault + helper" where
  "WaitForAvailableEntries k count h =
     (case AllocateRingBuffer k h of
        Inl e \<Rightarrow> Inl e
      | Inr (allocated, h0) \<Rightarrow>
          if \<not> usable h0 then Inr h0
          else if add_int32 (put h0) count > total_entry_count h0 then
            (case wrap_around k h0 of
               Inl e \<Rightarrow> Inl e
             | Inr (ok, h1) \<Rightarrow> if \<not> ok then Inr h1 else wait_for_immediate k count h1)
          else wait_for_immediate k count h0)"

text \<open>Modelled from the spec: \<^verbatim>\<open>GetSpace\<close>, the reservation of entries, is an inline
  member of the class header, which is not among the sources. Entries that can be written at once
  are taken from the immediate count; otherwise the waiting steps of the reservation run
  (lazy allocation, wrap, flush and wait), and a reservation that can still not be served
  gives no space ("a zero-capacity result"). The space is the offset of its first entry;
  \<open>put\<close> moves past the entries.
\<close>

definition GetSpace :: "constants \<Rightarrow> int \<Rightarrow> helper \<Rightarrow> fault + int option \<times> helper" where
  "GetSpace k n h =
     (case (if n > immediate_entry_count h then WaitForAvailableEntries k n h else Inr h) of
        Inl e \<Rightarrow> Inl e
      | Inr h1 \<Rightarrow>
          if n > immediate_entry_count h1 then Inr (None, h1)
          else Inr (Some (put h1),
                    h1\<lparr>put := put h1 + n,
                       immediate_entry_count := immediate_entry_count h1 - n\<rparr>))"

subsection \<open>Tokens\<close>

text \<open>Modelled from the spec: \<^verbatim>\<open>cmd::SetToken::Init\<close> belongs to the command format,
  which is not among the sources; it "writes a token command into the stream".\<close>

definition SetToken_Init :: "(int \<Rightarrow> entry) \<Rightarrow> int \<Rightarrow> int \<Rightarrow> int \<Rightarrow> entry" where
  "SetToken_Init es p t = es(p := SetTokenCmd t)"

definition InsertToken :: "constants \<Rightarrow> helper \<Rightarrow> fault + int \<times> helper" where
  "InsertToken k h =
     (case AllocateRingBuffer k h of
        Inl e \<Rightarrow> Inl e
      | Inr (allocated, h0) \<Rightarrow>
          if \<not> usable h0 then Inr (token h0, h0)
          else
            (case GetSpace k (kSetTokenEntries k)
                    (h0\<lparr>token := (token h0 + 1) AND 0x7FFFFFFF\<rparr>) of
               Inl e \<Rightarrow> Inl e
             | Inr (None, h1) \<Rightarrow> Inr (token h1, h1)
             | Inr (Some cmd, h1) \<Rightarrow>
                 (let h2 = h1\<lparr>entries := SetToken_Init (entries h1) cmd (token h1)\<rparr>
                  in if token h2 = 0 then
                       (case Finish k h2 of
                          Inl e \<Rightarrow> Inl e
                        | Inr (finished, h3) \<Rightarrow> Inr (token h3, h3))
                     else Inr (token h2, h2))))"

subsection \<open>The operations as a whole\<close>

datatype operation =
    OpSetAutomaticFlushes bool
  | OpIsContextLost
  | OpCalcImmediateEntries int
  | OpAllocateRingBuffer
  | OpFreeResources
  | OpFreeRingBuffer
  | OpInitialize int
  | OpFlushSync
  | OpFlush
  | OpFinish
  | OpInsertToken
  | OpWaitForToken int
  | OpWaitForAvailableEntries int
  | OpGetSpace int

definition forget :: "fault + 'a \<times> helper \<Rightarrow> fault + helper" where
  "forget r = (case r of Inl e \<Rightarrow> Inl e | Inr (x, h) \<Rightarrow> Inr h)"

fun run :: "constants \<Rightarrow> operation \<Rightarrow> helper \<Rightarrow> fault + helper" where
  "run k (OpSetAutomaticFlushes b) h = SetAutomaticFlushes k b h"
| "run k OpIsContextLost h = Inr (snd (IsContextLost h))"
| "run k (OpCalcImmediateEntries n) h = CalcImmediateEntries k n h"
| "run k OpAllocateRingBuffer h = forget (AllocateRingBuffer k h)"
| "run k OpFreeResources h = FreeResources k h"
| "run k OpFreeRingBuffer h = FreeRingBuffer k h"
| "run k (OpInitialize sz) h = forget (Initialize k sz h)"
| "run k OpFlushSync h = forget (FlushSync k h)"
| "run k OpFlush h = Flush k h"
| "run k OpFinish h = forget (Finish k h)"
| "run k OpInsertToken h = forget (InsertToken k h)"
| "run k (OpWaitForToken t) h = WaitForToken k t h"
| "run k (OpWaitForAvailableEntries n) h = WaitForAvailableEntries k n h"
| "run k (OpGetSpace n) h = forget (GetSpace k n h)"

text \<open>The operations that begin with \<^verbatim>\<open>AllocateRingBuffer\<close>, directly or through the
  reservation of entries.\<close>

fun allocates :: "operation \<Rightarrow> bool" where
  "allocates OpAllocateRingBuffer = True"
| "allocates (OpInitialize sz) = True"
| "allocates OpInsertToken = True"
| "allocates (OpWaitForAvailableEntries n) = True"
| "allocates (OpGetSpace n) = True"
| "allocates op = False"

text \<open>The helper on which an operation calls \<^verbatim>\<open>AllocateRingBuffer\<close>:
  \<^verbatim>\<open>Initialize\<close> stores the size first.\<close>

fun allocating_helper :: "operation \<Rightarrow> helper \<Rightarrow> helper" where
  "allocating_helper (OpInitialize sz) h = h\<lparr>ring_buffer_size := sz\<rparr>"
| "allocating_helper op h = h"

fun run_all :: "constants \<Rightarrow> operation list \<Rightarrow> helper \<Rightarrow> fault + helper" where
  "run_all k [] h = Inr h"
| "run_all k (op # ops) h =
     (case run k op h of Inl e \<Rightarrow> Inl e | Inr h1 \<Rightarrow> run_all k ops h1)"


section \<open>The specification's formulas and the worked examples\<close>

text \<open>The writable space as the specification states it: \<open>get - put - 1\<close> if
  \<open>get > put\<close>, otherwise \<open>capacity - put\<close> minus one slot if \<open>get = 0\<close>.\<close>

definition ComputeWritable_spec :: "int \<Rightarrow> int \<Rightarrow> int \<Rightarrow> int" where
  "ComputeWritable_spec capacity p g =
     (if g > p then g - p - 1 else capacity - p - (if g = 0 then 1 else 0))"

text \<open>The entries not yet sent as the specification states them:
  \<open>(put + capacity - last_put_sent) mod capacity\<close>.\<close>

definition pending_spec :: "int \<Rightarrow> int \<Rightarrow> int \<Rightarrow> int" where
  "pending_spec capacity p sent = (p + capacity - sent) mod capacity"

text \<open>The divisor that \<^verbatim>\<open>CalcImmediateEntries\<close> selects, and the entries it counts as
  pending.\<close>

definition flush_divisor :: "constants \<Rightarrow> helper \<Rightarrow> int" where
  "flush_divisor k h =
     (if get_offset h = last_put_sent h then kAutoFlushSmall k else kAutoFlushBig k)"

definition pending_entries :: "helper \<Rightarrow> int" where
  "pending_entries h =
     (put h + total_entry_count h - last_put_sent h) smod total_entry_count h"

text \<open>The entries from \<open>p\<close> up to \<open>q\<close> are no-op records laid end to end.\<close>

inductive noop_run :: "(int \<Rightarrow> entry) \<Rightarrow> int \<Rightarrow> int \<Rightarrow> bool" where
  noop_run_end: "noop_run es p p"
| noop_run_record:
    "es p = NoopHeader n \<Longrightarrow> 0 < n \<Longrightarrow> noop_run es (p + n) q \<Longrightarrow> noop_run es p q"

text \<open>The states of the helper at the head of the loop of \<^verbatim>\<open>WaitForToken\<close>, for a
  wait that starts in \<open>h\<close>: each iteration finds the token not acknowledged and the ring
  not empty, and its flush succeeds.\<close>

inductive waiting :: "constants \<Rightarrow> int \<Rightarrow> helper \<Rightarrow> helper \<Rightarrow> bool" where
  waiting_start: "waiting k tok h h"
| waiting_step:
    "waiting k tok h h1 \<Longrightarrow> last_token_read h1 < tok \<Longrightarrow> get_offset h1 \<noteq> put h1 \<Longrightarrow>
     FlushSync k h1 = Inr (True, h2) \<Longrightarrow> waiting k tok h h2"


text \<open>A service that last reported the consumed offset \<open>g\<close> and the token \<open>t\<close> without
  an error, and that will give the answers \<open>rs\<close>; an answer of the service.\<close>

definition answer :: "int \<Rightarrow> int \<Rightarrow> int \<Rightarrow> State" where
  "answer g t e =
     \<lparr>state_num_entries = 8, state_get_offset = g, state_put_offset = 0, state_token = t,
      state_error = e\<rparr>"

definition service_at :: "int \<Rightarrow> int \<Rightarrow> State list \<Rightarrow> channel" where
  "service_at g t rs =
     \<lparr>last_state = answer g t 0, calls = [], create_ids = [], replies = rs\<rparr>"

text \<open>A helper with a ring of eight entries installed, at the given \<open>put\<close> and
  \<open>last_put_sent\<close>.\<close>

definition ring8 :: "int \<Rightarrow> int \<Rightarrow> channel \<Rightarrow> helper" where
  "ring8 p sent cb =
     (CommandBufferHelper cb 100 0)
       \<lparr>ring_buffer_id := 1, ring_buffer_size := 32, total_entry_count := 8,
        put := p, last_put_sent := sent\<rparr>"

text \<open>\<open>put\<close> as the flushes send it: "wrap put before flush".\<close>

definition wrapped_put :: "helper \<Rightarrow> int" where
  "wrapped_put h = (if put h = total_entry_count h then 0 else put h)"

text \<open>What no operation changes once the ring is installed.\<close>

definition same_ring :: "helper \<Rightarrow> helper \<Rightarrow> bool" where
  "same_ring h h' \<longleftrightarrow>
     usable h' = usable h \<and> ring_buffer_id h' = ring_buffer_id h \<and>
     total_entry_count h' = total_entry_count h \<and> token h' = token h \<and>
     flush_automatically h' = flush_automatically h \<and> clock_now h' = clock_now h"


section \<open>What the flushes change\<close>

lemma CalcImmediateEntries_frame:
  assumes "CalcImmediateEntries k w h = Inr h'"
  shows "h' = h\<lparr>immediate_entry_count := immediate_entry_count h'\<rparr>"
  using assms by (auto simp: CalcImmediateEntries_def Let_def split: if_splits)

lemma CalcImmediateEntries_same:
  assumes "CalcImmediateEntries k w h = Inr h'"
  shows "command_buffer h' = command_buffer h" "usable h' = usable h"
    "ring_buffer_id h' = ring_buffer_id h" "total_entry_count h' = total_entry_count h"
    "put h' = put h" "last_put_sent h' = last_put_sent h" "token h' = token h"
    "entries h' = entries h" "flush_automatically h' = flush_automatically h"
    "last_flush_time h' = last_flush_time h" "clock_now h' = clock_now h"
    "get_offset h' = get_offset h" "HaveRingBuffer h' = HaveRingBuffer h"
    "last_token_read h' = last_token_read h"
proof -
  obtain n where h': "h' = h\<lparr>immediate_entry_count := n\<rparr>"
    using CalcImmediateEntries_frame [OF assms] by blast
  show "command_buffer h' = command_buffer h" "usable h' = usable h"
    "ring_buffer_id h' = ring_buffer_id h" "total_entry_count h' = total_entry_count h"
    "put h' = put h" "last_put_sent h' = last_put_sent h" "token h' = token h"
    "entries h' = entries h" "flush_automatically h' = flush_automatically h"
    "last_flush_time h' = last_flush_time h" "clock_now h' = clock_now h"
    "get_offset h' = get_offset h" "HaveRingBuffer h' = HaveRingBuffer h"
    "last_token_read h' = last_token_read h"
    by (simp_all add: h' get_offset_def HaveRingBuffer_def last_token_read_def)
qed

lemma FlushSync_unusable: "\<not> usable h \<Longrightarrow> FlushSync k h = Inr (False, h)"
  by (simp add: FlushSync_def)

lemma FlushSync_effect:
  assumes "FlushSync k h = Inr (ok, h')" "usable h"
  shows "\<exists>r rs n. replies (command_buffer h) = r # rs \<and> ok = (state_error r = kNoError) \<and>
     h' = h\<lparr>put := (if put h = total_entry_count h then 0 else put h),
            last_flush_time := clock_now h,
            last_put_sent := (if put h = total_entry_count h then 0 else put h),
            command_buffer := (command_buffer h)
              \<lparr>last_state := r,
               calls := calls (command_buffer h) @
                  [FlushSyncCall (if put h = total_entry_count h then 0 else put h) (get_offset h)],
               replies := rs\<rparr>,
            flush_generation := flush_generation h + 1,
            immediate_entry_count := n\<rparr>"
proof -
  define p where "p = (if put h = total_entry_count h then 0 else put h)"
  define h2 where "h2 = h\<lparr>put := p, last_flush_time := clock_now h, last_put_sent := p\<rparr>"
  from assms obtain r rs where rs: "replies (command_buffer h) = r # rs"
    by (auto simp: FlushSync_def Let_def channel_FlushSync_def split: list.splits if_splits)
  define cb where "cb = (command_buffer h)\<lparr>last_state := r,
      calls := calls (command_buffer h) @ [FlushSyncCall p (get_offset h)], replies := rs\<rparr>"
  define h3 where "h3 = h2\<lparr>command_buffer := cb, flush_generation := flush_generation h + 1\<rparr>"
  have fs: "FlushSync k h =
     (case CalcImmediateEntries k 0 h3 of Inl e \<Rightarrow> Inl e
      | Inr h4 \<Rightarrow> Inr (state_error r = kNoError, h4))"
    using assms(2) rs
    by (simp add: FlushSync_def Let_def channel_FlushSync_def h3_def h2_def cb_def p_def
        get_offset_def)
  with assms(1) obtain h4 where c: "CalcImmediateEntries k 0 h3 = Inr h4"
    and ok: "ok = (state_error r = kNoError)" and h4: "h' = h4"
    by (auto split: sum.splits)
  from CalcImmediateEntries_frame [OF c] have "h4 = h3\<lparr>immediate_entry_count := immediate_entry_count h4\<rparr>" .
  then show ?thesis using rs ok h4
    unfolding h3_def h2_def cb_def p_def by (intro exI [of _ r] exI [of _ rs] exI [of _ "immediate_entry_count h4"]) simp
qed

lemma FlushSync_same:
  assumes "FlushSync k h = Inr (ok, h')"
  shows "usable h' = usable h" "ring_buffer_id h' = ring_buffer_id h"
    "total_entry_count h' = total_entry_count h" "token h' = token h"
    "entries h' = entries h" "flush_automatically h' = flush_automatically h"
    "clock_now h' = clock_now h" "HaveRingBuffer h' = HaveRingBuffer h"
proof -
  have "usable h' = usable h \<and> ring_buffer_id h' = ring_buffer_id h \<and>
    total_entry_count h' = total_entry_count h \<and> token h' = token h \<and>
    entries h' = entries h \<and> flush_automatically h' = flush_automatically h \<and>
    clock_now h' = clock_now h \<and> HaveRingBuffer h' = HaveRingBuffer h"
  proof (cases "usable h")
    case True
    from FlushSync_effect [OF assms True] show ?thesis
      by (auto simp: HaveRingBuffer_def)
  next
    case False
    with assms show ?thesis by (simp add: FlushSync_unusable)
  qed
  then show "usable h' = usable h" "ring_buffer_id h' = ring_buffer_id h"
    "total_entry_count h' = total_entry_count h" "token h' = token h"
    "entries h' = entries h" "flush_automatically h' = flush_automatically h"
    "clock_now h' = clock_now h" "HaveRingBuffer h' = HaveRingBuffer h"
    by simp_all
qed

lemma FlushSync_false_error:
  assumes "FlushSync k h = Inr (False, h')" "usable h"
  shows "state_error (last_state (command_buffer h')) \<noteq> kNoError"
  using FlushSync_effect [OF assms] by auto

lemma FlushSync_true_no_error:
  assumes "FlushSync k h = Inr (True, h')"
  shows "state_error (last_state (command_buffer h')) = kNoError"
proof (cases "usable h")
  case True
  from FlushSync_effect [OF assms True] show ?thesis by auto
next
  case False
  with assms show ?thesis by (simp add: FlushSync_unusable)
qed

lemma Flush_effect:
  assumes "Flush k h = Inr h'"
  shows "(\<not> usable h \<or> last_put_sent h = (if put h = total_entry_count h then 0 else put h)) \<and>
           h' = h\<lparr>put := (if put h = total_entry_count h then 0 else put h)\<rparr>
       \<or> usable h \<and> last_put_sent h \<noteq> (if put h = total_entry_count h then 0 else put h) \<and>
          (\<exists>n. h' = h\<lparr>put := (if put h = total_entry_count h then 0 else put h),
            last_flush_time := clock_now h,
            last_put_sent := (if put h = total_entry_count h then 0 else put h),
            command_buffer := channel_Flush (if put h = total_entry_count h then 0 else put h)
                                (command_buffer h),
            flush_generation := flush_generation h + 1,
            immediate_entry_count := n\<rparr>)"
proof -
  define p where "p = (if put h = total_entry_count h then 0 else put h)"
  show ?thesis
  proof (cases "usable h \<and> last_put_sent h \<noteq> p")
    case False
    with assms show ?thesis
      by (auto simp: Flush_def Let_def p_def split: if_splits)
  next
    case True
    define h2 where "h2 = h\<lparr>put := p, last_flush_time := clock_now h, last_put_sent := p,
        command_buffer := channel_Flush p (command_buffer h),
        flush_generation := flush_generation h + 1\<rparr>"
    from True assms have c: "CalcImmediateEntries k 0 h2 = Inr h'"
      by (auto simp: Flush_def Let_def p_def h2_def split: if_splits)
    from CalcImmediateEntries_frame [OF c] True show ?thesis
      unfolding h2_def p_def by (intro disjI2) auto
  qed
qed

lemma Flush_same:
  assumes "Flush k h = Inr h'"
  shows "usable h' = usable h" "ring_buffer_id h' = ring_buffer_id h"
    "total_entry_count h' = total_entry_count h" "token h' = token h"
    "entries h' = entries h" "flush_automatically h' = flush_automatically h"
    "clock_now h' = clock_now h" "HaveRingBuffer h' = HaveRingBuffer h"
    "last_state (command_buffer h') = last_state (command_buffer h)"
    "replies (command_buffer h') = replies (command_buffer h)"
  using Flush_effect [OF assms] by (auto simp: HaveRingBuffer_def channel_Flush_def)

lemma same_ring_refl [simp]: "same_ring h h"
  by (simp add: same_ring_def)

lemma same_ring_trans: "same_ring h h1 \<Longrightarrow> same_ring h1 h2 \<Longrightarrow> same_ring h h2"
  by (simp add: same_ring_def)

lemma same_ring_HaveRingBuffer: "same_ring h h' \<Longrightarrow> HaveRingBuffer h' = HaveRingBuffer h"
  by (simp add: same_ring_def HaveRingBuffer_def)

lemma CalcImmediateEntries_same_ring:
  "CalcImmediateEntries k w h = Inr h' \<Longrightarrow> same_ring h h'"
  by (simp add: same_ring_def CalcImmediateEntries_same)

lemma FlushSync_same_ring: "FlushSync k h = Inr (ok, h') \<Longrightarrow> same_ring h h'"
  by (simp add: same_ring_def FlushSync_same)

lemma Flush_same_ring: "Flush k h = Inr h' \<Longrightarrow> same_ring h h'"
  by (simp add: same_ring_def Flush_same)

subsection \<open>Finish\<close>

lemma Finish_loop_same_ring:
  "Finish_loop k h = Inr (b, h') \<Longrightarrow> same_ring h h'"
proof (induction k h rule: Finish_loop.induct)
  case (1 k h)
  from "1.prems" obtain ok h1 where fs: "FlushSync k h = Inr (ok, h1)"
    by (subst (asm) Finish_loop.simps) (auto split: sum.splits)
  note sr = FlushSync_same_ring [OF fs]
  show ?case
  proof (cases "ok \<and> put h1 \<noteq> get_offset h1")
    case True
    with "1.prems" fs have "Finish_loop k h1 = Inr (b, h')"
      by (subst (asm) Finish_loop.simps) simp
    with "1.IH" fs True have "same_ring h1 h'" by simp
    with sr show ?thesis by (rule same_ring_trans)
  next
    case False
    with "1.prems" fs have "h' = h1"
      by (subst (asm) Finish_loop.simps) (auto split: if_splits)
    with sr show ?thesis by simp
  qed
qed

lemma Finish_loop_true:
  "Finish_loop k h = Inr (True, h') \<Longrightarrow> put h' = get_offset h'"
proof (induction k h rule: Finish_loop.induct)
  case (1 k h)
  from "1.prems" obtain ok h1 where fs: "FlushSync k h = Inr (ok, h1)"
    by (subst (asm) Finish_loop.simps) (auto split: sum.splits)
  show ?case
  proof (cases "ok \<and> put h1 \<noteq> get_offset h1")
    case True
    with "1.prems" fs have "Finish_loop k h1 = Inr (True, h')"
      by (subst (asm) Finish_loop.simps) simp
    with "1.IH" fs True show ?thesis by simp
  next
    case False
    with "1.prems" fs show ?thesis
      by (subst (asm) Finish_loop.simps) (auto split: if_splits)
  qed
qed

lemma Finish_loop_false:
  "Finish_loop k h = Inr (False, h') \<Longrightarrow> usable h \<Longrightarrow>
     state_error (last_state (command_buffer h')) \<noteq> kNoError"
proof (induction k h rule: Finish_loop.induct)
  case (1 k h)
  from "1.prems" obtain ok h1 where fs: "FlushSync k h = Inr (ok, h1)"
    by (subst (asm) Finish_loop.simps) (auto split: sum.splits)
  show ?case
  proof (cases "ok \<and> put h1 \<noteq> get_offset h1")
    case True
    with "1.prems" fs have "Finish_loop k h1 = Inr (False, h')"
      by (subst (asm) Finish_loop.simps) simp
    moreover have "usable h1" using FlushSync_same(1) [OF fs] "1.prems" by simp
    ultimately show ?thesis using "1.IH" fs True by simp
  next
    case False
    with "1.prems" fs have "\<not> ok" "h' = h1"
      by (subst (asm) Finish_loop.simps; auto split: if_splits)+
    with fs "1.prems" show ?thesis by (auto dest: FlushSync_false_error)
  qed
qed


lemma CalcImmediateEntries_returns:
  assumes "kAutoFlushSmall k \<noteq> 0" "kAutoFlushBig k \<noteq> 0" "total_entry_count h \<noteq> 0"
  shows "\<exists>h'. CalcImmediateEntries k w h = Inr h'"
  using assms by (simp add: CalcImmediateEntries_def Let_def)

lemma FlushSync_returns:
  assumes "kAutoFlushSmall k \<noteq> 0" "kAutoFlushBig k \<noteq> 0" "total_entry_count h \<noteq> 0"
    "replies (command_buffer h) = r # rs"
  shows "\<exists>h'. FlushSync k h = Inr (usable h \<and> state_error r = kNoError, h') \<and>
     replies (command_buffer h') = (if usable h then rs else r # rs)"
proof (cases "usable h")
  case False
  with assms show ?thesis by (simp add: FlushSync_unusable)
next
  case True
  define p where "p = (if put h = total_entry_count h then 0 else put h)"
  define h3 where "h3 = h\<lparr>put := p, last_flush_time := clock_now h, last_put_sent := p,
     command_buffer := (command_buffer h)\<lparr>last_state := r,
      calls := calls (command_buffer h) @ [FlushSyncCall p (get_offset h)], replies := rs\<rparr>,
     flush_generation := flush_generation h + 1\<rparr>"
  have fs: "FlushSync k h =
     (case CalcImmediateEntries k 0 h3 of Inl e \<Rightarrow> Inl e
      | Inr h4 \<Rightarrow> Inr (state_error r = kNoError, h4))"
    using True assms(4)
    by (simp add: FlushSync_def Let_def channel_FlushSync_def h3_def p_def get_offset_def)
  have "total_entry_count h3 \<noteq> 0" using assms(3) by (simp add: h3_def)
  from CalcImmediateEntries_returns [OF assms(1,2) this]
  obtain h4 where c: "CalcImmediateEntries k 0 h3 = Inr h4" by blast
  from CalcImmediateEntries_same(1) [OF c] have "replies (command_buffer h4) = rs"
    by (simp add: h3_def)
  with fs c True show ?thesis by simp
qed

lemma Finish_loop_returns:
  assumes "kAutoFlushSmall k \<noteq> 0" "kAutoFlushBig k \<noteq> 0"
  shows "total_entry_count h \<noteq> 0 \<Longrightarrow> usable h \<Longrightarrow> replies (command_buffer h) = rs \<Longrightarrow>
     \<exists>r \<in> set rs. state_error r \<noteq> kNoError \<Longrightarrow> \<exists>b h'. Finish_loop k h = Inr (b, h')"
proof (induction rs arbitrary: h)
  case Nil
  then show ?case by simp
next
  case (Cons r rs)
  from FlushSync_returns [OF assms Cons.prems(1) Cons.prems(3)] Cons.prems(2)
  obtain h1 where fs: "FlushSync k h = Inr (state_error r = kNoError, h1)"
    and rs: "replies (command_buffer h1) = rs" by auto
  show ?case
  proof (cases "state_error r = kNoError \<and> put h1 \<noteq> get_offset h1")
    case False
    with fs show ?thesis by (subst Finish_loop.simps) auto
  next
    case True
    with Cons.prems(4) have ex: "\<exists>r \<in> set rs. state_error r \<noteq> kNoError" by auto
    have "total_entry_count h1 \<noteq> 0" "usable h1"
      using FlushSync_same [OF fs] Cons.prems by simp_all
    from Cons.IH [OF this rs ex] obtain b h' where "Finish_loop k h1 = Inr (b, h')" by blast
    with fs True show ?thesis by (subst Finish_loop.simps) auto
  qed
qed



lemmas example_defs = ring8_def service_at_def answer_def CommandBufferHelper_def
  example_constants_def

lemmas run_defs = FlushSync_def Flush_def CalcImmediateEntries_def channel_FlushSync_def
  channel_Flush_def HaveRingBuffer_def get_offset_def last_token_read_def Let_def kNoError_def
  signed_divide_int_def signed_modulo_int_def

section \<open>What the loops change\<close>

lemma Finish_same_ring: "Finish k h = Inr (b, h') \<Longrightarrow> same_ring h h'"
  by (auto simp: Finish_def split: if_splits dest: Finish_loop_same_ring)

lemma WaitForToken_loop_same_ring:
  "WaitForToken_loop k tok h = Inr h' \<Longrightarrow> same_ring h h'"
proof (induction k tok h rule: WaitForToken_loop.induct)
  case (1 k tok h)
  show ?case
  proof (cases "last_token_read h < tok")
    case False
    with "1.prems" show ?thesis by (subst (asm) WaitForToken_loop.simps) simp
  next
    case True
    with "1.prems" have ne: "get_offset h \<noteq> put h"
      by (subst (asm) WaitForToken_loop.simps) (auto split: if_splits)
    with True "1.prems" obtain ok h1 where fs: "FlushSync k h = Inr (ok, h1)"
      by (subst (asm) WaitForToken_loop.simps) (auto split: sum.splits)
    note sr = FlushSync_same_ring [OF fs]
    show ?thesis
    proof (cases ok)
      case False
      with True ne fs "1.prems" have "h' = h1"
        by (subst (asm) WaitForToken_loop.simps) simp
      with sr show ?thesis by simp
    next
      case ok: True
      with True ne fs "1.prems" have "WaitForToken_loop k tok h1 = Inr h'"
        by (subst (asm) WaitForToken_loop.simps) simp
      with "1.IH" [OF True ne fs refl] ok have "same_ring h1 h'" by simp
      with sr show ?thesis by (rule same_ring_trans)
    qed
  qed
qed

lemma WaitForToken_same_ring: "WaitForToken k tok h = Inr h' \<Longrightarrow> same_ring h h'"
  by (auto simp: WaitForToken_def split: if_splits dest: WaitForToken_loop_same_ring)

lemma wrap_wait_loop_result:
  "wrap_wait_loop k h = Inr (ok, h') \<Longrightarrow>
     same_ring h h' \<and> entries h' = entries h \<and>
     (ok \<longrightarrow> get_offset h' \<noteq> 0 \<and> get_offset h' \<le> put h') \<and>
     (\<not> ok \<and> usable h \<longrightarrow> state_error (last_state (command_buffer h')) \<noteq> kNoError)"
proof (induction k h rule: wrap_wait_loop.induct)
  case (1 k h)
  show ?case
  proof (cases "get_offset h > put h \<or> get_offset h = 0")
    case False
    with "1.prems" have "ok" "h' = h"
      by (subst (asm) wrap_wait_loop.simps; simp)+
    with False show ?thesis by auto
  next
    case True
    with "1.prems" obtain ok1 h1 where fs: "FlushSync k h = Inr (ok1, h1)"
      by (subst (asm) wrap_wait_loop.simps) (auto split: sum.splits)
    note sr = FlushSync_same_ring [OF fs]
    note en = FlushSync_same(5) [OF fs]
    show ?thesis
    proof (cases ok1)
      case False
      with True fs "1.prems" have r: "\<not> ok" "h' = h1"
        by (subst (asm) wrap_wait_loop.simps; simp)+
      with sr en fs False show ?thesis by (auto dest: FlushSync_false_error)
    next
      case ok1: True
      with True fs "1.prems" have "wrap_wait_loop k h1 = Inr (ok, h')"
        by (subst (asm) wrap_wait_loop.simps) simp
      with "1.IH" [OF True fs refl] ok1
      have ih: "same_ring h1 h' \<and> entries h' = entries h1 \<and>
         (ok \<longrightarrow> get_offset h' \<noteq> 0 \<and> get_offset h' \<le> put h') \<and>
         (\<not> ok \<and> usable h1 \<longrightarrow> state_error (last_state (command_buffer h')) \<noteq> kNoError)"
        by simp
      moreover have "usable h1 = usable h" using sr by (simp add: same_ring_def)
      ultimately show ?thesis using sr en by (auto intro: same_ring_trans)
    qed
  qed
qed



lemma noop_fill_result:
  "noop_fill k n h = Inr h' \<Longrightarrow>
     same_ring h h' \<and> command_buffer h' = command_buffer h \<and>
     put h' = put h + max 0 n \<and>
     (\<forall>i. i < put h \<or> put h + max 0 n \<le> i \<longrightarrow> entries h' i = entries h i) \<and>
     noop_run (entries h') (put h) (put h + max 0 n) \<and>
     immediate_entry_count h' = immediate_entry_count h \<and>
     last_put_sent h' = last_put_sent h"
proof (induction k n h rule: noop_fill.induct)
  case (1 k n h)
  show ?case
  proof (cases "n > 0")
    case False
    with "1.prems" have "h' = h" by (subst (asm) noop_fill.simps) simp
    with False show ?thesis by (simp add: noop_run_end)
  next
    case True
    define s where "s = min (kMaxSize k) n"
    define h1 where "h1 = h\<lparr>entries := Noop_Set (entries h) (put h) s, put := put h + s\<rparr>"
    from True "1.prems" have s: "0 < s"
      by (subst (asm) noop_fill.simps) (auto simp: s_def Let_def split: if_splits)
    with True "1.prems" have rec: "noop_fill k (n - s) h1 = Inr h'"
      by (subst (asm) noop_fill.simps) (auto simp: s_def h1_def Let_def split: if_splits)
    have sn: "s \<le> n" by (simp add: s_def)
    from "1.IH" [OF True s_def] s rec
    have ih: "same_ring h1 h' \<and> command_buffer h' = command_buffer h1 \<and>
       put h' = put h1 + max 0 (n - s) \<and>
       (\<forall>i. i < put h1 \<or> put h1 + max 0 (n - s) \<le> i \<longrightarrow> entries h' i = entries h1 i) \<and>
       noop_run (entries h') (put h1) (put h1 + max 0 (n - s)) \<and>
       immediate_entry_count h' = immediate_entry_count h1 \<and>
       last_put_sent h' = last_put_sent h1"
      by (simp add: h1_def)
    have p1: "put h1 = put h + s" by (simp add: h1_def)
    have e: "put h1 + max 0 (n - s) = put h + max 0 n" using sn True p1 by simp
    have hd: "entries h' (put h) = NoopHeader s"
      using ih p1 s by (simp add: h1_def Noop_Set_def)
    have run: "noop_run (entries h') (put h) (put h + max 0 n)"
      using noop_run_record [of "entries h'" "put h" s "put h + max 0 n"] hd s ih p1 e by simp
    have out: "\<forall>i. i < put h \<or> put h + max 0 n \<le> i \<longrightarrow> entries h' i = entries h i"
    proof (intro allI impI)
      fix i assume i: "i < put h \<or> put h + max 0 n \<le> i"
      with p1 s e have "i < put h1 \<or> put h1 + max 0 (n - s) \<le> i" by auto
      with ih have "entries h' i = entries h1 i" by blast
      also from i True have "i \<noteq> put h" by auto
      then have "entries h1 i = entries h i" by (simp add: h1_def Noop_Set_def)
      finally show "entries h' i = entries h i" .
    qed
    have "same_ring h h1" by (simp add: same_ring_def h1_def)
    with ih have "same_ring h h'" by (auto intro: same_ring_trans)
    with ih e run out show ?thesis by (simp add: h1_def)
  qed
qed

lemma wait_entries_loop_result:
  "wait_entries_loop k n h = Inr h' \<Longrightarrow>
     same_ring h h' \<and> entries h' = entries h \<and>
     (usable h \<longrightarrow> n \<le> immediate_entry_count h' \<or>
        state_error (last_state (command_buffer h')) \<noteq> kNoError)"
proof (induction k n h rule: wait_entries_loop.induct)
  case (1 k n h)
  show ?case
  proof (cases "immediate_entry_count h < n")
    case False
    with "1.prems" have "h' = h" by (subst (asm) wait_entries_loop.simps) simp
    with False show ?thesis by simp
  next
    case True
    with "1.prems" obtain ok1 h1 where fs: "FlushSync k h = Inr (ok1, h1)"
      by (subst (asm) wait_entries_loop.simps) (auto split: sum.splits)
    note sr = FlushSync_same_ring [OF fs]
    note en = FlushSync_same(5) [OF fs]
    show ?thesis
    proof (cases ok1)
      case False
      with True fs "1.prems" have "h' = h1"
        by (subst (asm) wait_entries_loop.simps) simp
      with sr en fs False show ?thesis by (auto dest: FlushSync_false_error)
    next
      case ok1: True
      with True fs "1.prems" obtain h2 where c: "CalcImmediateEntries k n h1 = Inr h2"
        by (subst (asm) wait_entries_loop.simps) (auto split: sum.splits)
      with True fs ok1 "1.prems" have rec: "wait_entries_loop k n h2 = Inr h'"
        by (subst (asm) wait_entries_loop.simps) simp
      from "1.IH" [OF True fs refl _ c] ok1 rec
      have ih: "same_ring h2 h' \<and> entries h' = entries h2 \<and>
         (usable h2 \<longrightarrow> n \<le> immediate_entry_count h' \<or>
            state_error (last_state (command_buffer h')) \<noteq> kNoError)"
        by simp
      have s12: "same_ring h1 h2" and e12: "entries h2 = entries h1"
        using c by (simp_all add: CalcImmediateEntries_same_ring CalcImmediateEntries_same)
      have "same_ring h h2" using sr s12 by (rule same_ring_trans)
      moreover from this have "usable h2 = usable h" by (simp add: same_ring_def)
      ultimately show ?thesis using ih en e12 by (auto intro: same_ring_trans)
    qed
  qed
qed

lemma wrap_around_result:
  assumes "wrap_around k h = Inr (ok, h')"
  shows "same_ring h h'"
    "\<not> ok \<Longrightarrow> entries h' = entries h"
    "\<not> ok \<Longrightarrow> usable h \<Longrightarrow> state_error (last_state (command_buffer h')) \<noteq> kNoError"
    "ok \<Longrightarrow> \<exists>h1 h2. wrap_wait_loop k h = Inr (True, h1) \<and> entries h1 = entries h \<and>
        get_offset h1 \<noteq> 0 \<and> get_offset h1 \<le> put h1 \<and>
        noop_fill k (total_entry_count h1 - put h1) h1 = Inr h2 \<and> h' = h2\<lparr>put := 0\<rparr>"
proof -
  from assms obtain ok1 h1 where w: "wrap_wait_loop k h = Inr (ok1, h1)"
    by (auto simp: wrap_around_def split: sum.splits)
  note r = wrap_wait_loop_result [OF w]
  have "same_ring h h' \<and> (\<not> ok \<longrightarrow> entries h' = entries h) \<and>
    (\<not> ok \<and> usable h \<longrightarrow> state_error (last_state (command_buffer h')) \<noteq> kNoError) \<and>
    (ok \<longrightarrow> (\<exists>h1 h2. wrap_wait_loop k h = Inr (True, h1) \<and> entries h1 = entries h \<and>
        get_offset h1 \<noteq> 0 \<and> get_offset h1 \<le> put h1 \<and>
        noop_fill k (total_entry_count h1 - put h1) h1 = Inr h2 \<and> h' = h2\<lparr>put := 0\<rparr>))"
  proof (cases ok1)
    case False
    with assms w have "\<not> ok" "h' = h1" by (auto simp: wrap_around_def)
    with r False show ?thesis by auto
  next
    case True
    with assms w obtain h2 where nf: "noop_fill k (total_entry_count h1 - put h1) h1 = Inr h2"
      and ok: "ok" and h': "h' = h2\<lparr>put := 0\<rparr>"
      by (auto simp: wrap_around_def split: sum.splits)
    from noop_fill_result [OF nf] have "same_ring h1 h2" by simp
    moreover have "same_ring h2 h'" by (simp add: h' same_ring_def)
    ultimately have "same_ring h h'" using r by (auto intro: same_ring_trans)
    with True w r nf ok h' show ?thesis by auto
  qed
  then show "same_ring h h'"
    "\<not> ok \<Longrightarrow> entries h' = entries h"
    "\<not> ok \<Longrightarrow> usable h \<Longrightarrow> state_error (last_state (command_buffer h')) \<noteq> kNoError"
    "ok \<Longrightarrow> \<exists>h1 h2. wrap_wait_loop k h = Inr (True, h1) \<and> entries h1 = entries h \<and>
        get_offset h1 \<noteq> 0 \<and> get_offset h1 \<le> put h1 \<and>
        noop_fill k (total_entry_count h1 - put h1) h1 = Inr h2 \<and> h' = h2\<lparr>put := 0\<rparr>"
    by blast+
qed

lemma wait_for_immediate_result:
  assumes "wait_for_immediate k n h = Inr h'"
  shows "same_ring h h'" "entries h' = entries h"
    "usable h \<Longrightarrow> n \<le> immediate_entry_count h' \<or>
        state_error (last_state (command_buffer h')) \<noteq> kNoError"
proof -
  from assms obtain h1 where c1: "CalcImmediateEntries k n h = Inr h1"
    by (auto simp: wait_for_immediate_def split: sum.splits)
  note s1 = CalcImmediateEntries_same_ring [OF c1] and e1 = CalcImmediateEntries_same(8) [OF c1]
  have "same_ring h h' \<and> entries h' = entries h \<and>
    (usable h \<longrightarrow> n \<le> immediate_entry_count h' \<or>
        state_error (last_state (command_buffer h')) \<noteq> kNoError)"
  proof (cases "immediate_entry_count h1 < n")
    case False
    with assms c1 have "h' = h1" by (simp add: wait_for_immediate_def)
    with s1 e1 False show ?thesis by simp
  next
    case True
    with assms c1 obtain h2 h3 where f: "Flush k h1 = Inr h2"
      and c3: "CalcImmediateEntries k n h2 = Inr h3"
      and w: "wait_entries_loop k n h3 = Inr h'"
      by (auto simp: wait_for_immediate_def split: sum.splits)
    note s2 = Flush_same_ring [OF f] and e2 = Flush_same(5) [OF f]
    note s3 = CalcImmediateEntries_same_ring [OF c3] and e3 = CalcImmediateEntries_same(8) [OF c3]
    note r = wait_entries_loop_result [OF w]
    have s: "same_ring h h3" using s1 s2 s3 by (blast intro: same_ring_trans)
    then have "usable h3 = usable h" by (simp add: same_ring_def)
    with r s e1 e2 e3 show ?thesis by (auto intro: same_ring_trans)
  qed
  then show "same_ring h h'" "entries h' = entries h"
    "usable h \<Longrightarrow> n \<le> immediate_entry_count h' \<or>
        state_error (last_state (command_buffer h')) \<noteq> kNoError"
    by blast+
qed

subsection \<open>Allocation\<close>

lemma AllocateRingBuffer_unusable: "\<not> usable h \<Longrightarrow> AllocateRingBuffer k h = Inr (False, h)"
  by (simp add: AllocateRingBuffer_def)

lemma AllocateRingBuffer_installed:
  "usable h \<Longrightarrow> HaveRingBuffer h \<Longrightarrow> AllocateRingBuffer k h = Inr (True, h)"
  by (simp add: AllocateRingBuffer_def)

lemma AllocateRingBuffer_result:
  assumes "AllocateRingBuffer k h = Inr (b, h')"
  shows "token h' = token h" "usable h' \<Longrightarrow> usable h" "b = usable h'"
    "usable h' \<Longrightarrow> HaveRingBuffer h'"
    "flush_automatically h' = flush_automatically h"
proof -
  have "token h' = token h \<and> (usable h' \<longrightarrow> usable h) \<and> b = usable h' \<and>
     (usable h' \<longrightarrow> HaveRingBuffer h') \<and> flush_automatically h' = flush_automatically h"
  proof (cases "\<not> usable h \<or> HaveRingBuffer h")
    case True
    with assms show ?thesis by (auto simp: AllocateRingBuffer_def split: if_splits)
  next
    case False
    with assms obtain i cb1 where cr:
      "channel_CreateTransferBuffer (ring_buffer_size h) (command_buffer h) = Some (i, cb1)"
      by (auto simp: AllocateRingBuffer_def split: option.splits)
    show ?thesis
    proof (cases "i < 0")
      case True
      with False cr assms show ?thesis
        by (auto simp: AllocateRingBuffer_def ClearUsable_def)
    next
      case i: False
      with False cr assms obtain state cb2 where gs:
        "channel_GetState (channel_SetGetBuffer i cb1) = Some (state, cb2)"
        by (auto simp: AllocateRingBuffer_def split: option.splits)
      define h2 where "h2 = h\<lparr>command_buffer := cb2, ring_buffer_id := i,
          entries := (\<lambda>_. Unwritten)\<rparr>"
      show ?thesis
      proof (cases "num_ring_buffer_entries k (ring_buffer_size h) > state_num_entries state")
        case True
        with False cr i gs assms show ?thesis
          by (auto simp: AllocateRingBuffer_def ClearUsable_def Let_def split: if_splits)
      next
        case n: False
        with False cr i gs assms obtain h3 where
          c: "CalcImmediateEntries k 0
               (h2\<lparr>total_entry_count := num_ring_buffer_entries k (ring_buffer_size h2),
                   put := state_put_offset state\<rparr>) = Inr h3"
          and h': "h' = h3" and b: "b"
          by (auto simp: AllocateRingBuffer_def Let_def h2_def split: if_splits sum.splits)
        from CalcImmediateEntries_same [OF c] i h' b False show ?thesis
          by (simp add: h2_def HaveRingBuffer_def)
      qed
    qed
  qed
  then show "token h' = token h" "usable h' \<Longrightarrow> usable h" "b = usable h'"
    "usable h' \<Longrightarrow> HaveRingBuffer h'" "flush_automatically h' = flush_automatically h"
    by blast+
qed

lemma AllocateRingBuffer_create_fails:
  assumes "usable h" "\<not> HaveRingBuffer h" "create_ids (command_buffer h) = i # is" "i < 0"
  shows "AllocateRingBuffer k h =
     Inr (False, h\<lparr>command_buffer := (command_buffer h)
                     \<lparr>calls := calls (command_buffer h) @
                                 [CreateTransferBufferCall (ring_buffer_size h)],
                      create_ids := is\<rparr>,
              usable := False\<rparr>)"
  using assms
  by (simp add: AllocateRingBuffer_def channel_CreateTransferBuffer_def ClearUsable_def)

lemma AllocateRingBuffer_too_small:
  assumes "usable h" "\<not> HaveRingBuffer h" "create_ids (command_buffer h) = i # is" "0 \<le> i"
    "replies (command_buffer h) = r # rs" "kEntrySize k \<noteq> 0"
    "num_ring_buffer_entries k (ring_buffer_size h) > state_num_entries r"
  shows "\<exists>h'. AllocateRingBuffer k h = Inr (False, h') \<and> \<not> usable h'"
  using assms
  by (simp add: AllocateRingBuffer_def channel_CreateTransferBuffer_def ClearUsable_def
      channel_GetState_def channel_SetGetBuffer_def Let_def)

lemma FreeResources_result:
  assumes "FreeResources k h = Inr h'"
  shows "usable h' = usable h" "token h' = token h" "\<not> HaveRingBuffer h'"
proof -
  have "usable h' = usable h \<and> token h' = token h \<and> \<not> HaveRingBuffer h'"
  proof (cases "HaveRingBuffer h")
    case False
    with assms show ?thesis by (simp add: FreeResources_def)
  next
    case True
    with assms have c: "CalcImmediateEntries k 0
             (h\<lparr>command_buffer :=
                   channel_DestroyTransferBuffer (ring_buffer_id h) (command_buffer h),
                 ring_buffer_id := - 1\<rparr>) = Inr h'"
      by (simp add: FreeResources_def)
    from CalcImmediateEntries_same [OF c] show ?thesis by (simp add: HaveRingBuffer_def)
  qed
  then show "usable h' = usable h" "token h' = token h" "\<not> HaveRingBuffer h'" by blast+
qed

lemma WaitForAvailableEntries_result:
  assumes "WaitForAvailableEntries k n h = Inr h'"
  shows "\<exists>b h0. AllocateRingBuffer k h = Inr (b, h0) \<and> same_ring h0 h'"
    "usable h \<Longrightarrow> HaveRingBuffer h \<Longrightarrow> same_ring h h'"
    "usable h \<Longrightarrow> HaveRingBuffer h \<Longrightarrow> n \<le> immediate_entry_count h' \<or>
        state_error (last_state (command_buffer h')) \<noteq> kNoError"
proof -
  from assms obtain b h0 where al: "AllocateRingBuffer k h = Inr (b, h0)"
    by (auto simp: WaitForAvailableEntries_def split: sum.splits)
  have r: "same_ring h0 h' \<and> (usable h0 \<longrightarrow> n \<le> immediate_entry_count h' \<or>
        state_error (last_state (command_buffer h')) \<noteq> kNoError)"
  proof (cases "usable h0")
    case False
    with assms al have "h' = h0" by (simp add: WaitForAvailableEntries_def)
    with False show ?thesis by simp
  next
    case u: True
    show ?thesis
    proof (cases "add_int32 (put h0) n > total_entry_count h0")
      case False
      with assms al u have w: "wait_for_immediate k n h0 = Inr h'"
        by (simp add: WaitForAvailableEntries_def)
      from wait_for_immediate_result [OF w] u show ?thesis by simp
    next
      case True
      with assms al u obtain ok h1 where wa: "wrap_around k h0 = Inr (ok, h1)"
        by (auto simp: WaitForAvailableEntries_def split: sum.splits)
      note s1 = wrap_around_result(1) [OF wa]
      show ?thesis
      proof (cases ok)
        case False
        with assms al u True wa have "h' = h1" by (simp add: WaitForAvailableEntries_def)
        with s1 wrap_around_result(3) [OF wa] False u show ?thesis by simp
      next
        case ok: True
        with assms al u True wa have w: "wait_for_immediate k n h1 = Inr h'"
          by (simp add: WaitForAvailableEntries_def)
        have "usable h1" using s1 u by (simp add: same_ring_def)
        with wait_for_immediate_result [OF w] s1 show ?thesis
          by (auto intro: same_ring_trans)
      qed
    qed
  qed
  with al show "\<exists>b h0. AllocateRingBuffer k h = Inr (b, h0) \<and> same_ring h0 h'" by blast
  show "same_ring h h'" if "usable h" "HaveRingBuffer h"
    using that al r by (simp add: AllocateRingBuffer_installed)
  show "n \<le> immediate_entry_count h' \<or>
        state_error (last_state (command_buffer h')) \<noteq> kNoError"
    if "usable h" "HaveRingBuffer h"
    using that al r by (simp add: AllocateRingBuffer_installed)
qed

lemma GetSpace_result:
  assumes "GetSpace k n h = Inr (sp, h')"
  shows "\<exists>h0. (h0 = h \<or> (\<exists>b. AllocateRingBuffer k h = Inr (b, h0))) \<and> same_ring h0 h'"
    "usable h \<Longrightarrow> HaveRingBuffer h \<Longrightarrow> same_ring h h'"
    "usable h \<Longrightarrow> HaveRingBuffer h \<Longrightarrow> sp = None \<Longrightarrow>
        state_error (last_state (command_buffer h')) \<noteq> kNoError"
proof -
  from assms obtain h1 where
    w: "(if n > immediate_entry_count h then WaitForAvailableEntries k n h else Inr h) = Inr h1"
    by (auto simp: GetSpace_def split: sum.splits)
  with assms have h': "(n > immediate_entry_count h1 \<and> sp = None \<and> h' = h1) \<or>
     (\<not> n > immediate_entry_count h1 \<and> sp = Some (put h1) \<and>
      h' = h1\<lparr>put := put h1 + n, immediate_entry_count := immediate_entry_count h1 - n\<rparr>)"
    by (auto simp: GetSpace_def split: if_splits)
  then have s1: "same_ring h1 h'" by (auto simp: same_ring_def)
  show "\<exists>h0. (h0 = h \<or> (\<exists>b. AllocateRingBuffer k h = Inr (b, h0))) \<and> same_ring h0 h'"
  proof (cases "n > immediate_entry_count h")
    case False
    with w s1 show ?thesis by auto
  next
    case True
    with w have "WaitForAvailableEntries k n h = Inr h1" by simp
    from WaitForAvailableEntries_result(1) [OF this] s1 show ?thesis
      by (blast intro: same_ring_trans)
  qed
  show "same_ring h h'" if "usable h" "HaveRingBuffer h"
  proof (cases "n > immediate_entry_count h")
    case False
    with w s1 show ?thesis by auto
  next
    case True
    with w have "WaitForAvailableEntries k n h = Inr h1" by simp
    from WaitForAvailableEntries_result(2) [OF this that] s1 show ?thesis
      by (blast intro: same_ring_trans)
  qed
  show "state_error (last_state (command_buffer h')) \<noteq> kNoError"
    if "usable h" "HaveRingBuffer h" "sp = None"
  proof (cases "n > immediate_entry_count h")
    case False
    with w h' that show ?thesis by auto
  next
    case True
    with w have "WaitForAvailableEntries k n h = Inr h1" by simp
    from WaitForAvailableEntries_result(3) [OF this that(1,2)] h' that(3) show ?thesis
      by auto
  qed
qed

subsection \<open>The token counter\<close>

lemma token_mask: "(x::int) AND 0x7FFFFFFF = x mod 2 ^ 31"
proof -
  have m: "(0x7FFFFFFF::int) = mask 31" by (simp add: mask_eq_exp_minus_1)
  have "x AND mask 31 = x mod 2 ^ 31" by (simp add: take_bit_eq_mod flip: take_bit_eq_mask)
  then show ?thesis unfolding m .
qed

lemma token_mask_range: "0 \<le> (x::int) AND 0x7FFFFFFF" "(x::int) AND 0x7FFFFFFF \<le> 0x7FFFFFFF"
  by (simp_all add: token_mask flip: zle_diff1_eq)


lemma token_mask_wrap: "((0x7FFFFFFF::int) + 1) AND 0x7FFFFFFF = 0"
  by simp

lemma Finish_true: "Finish k h = Inr (True, h') \<Longrightarrow> put h' = get_offset h'"
  by (auto simp: Finish_def split: if_splits dest: Finish_loop_true)

lemma Finish_false:
  "Finish k h = Inr (False, h') \<Longrightarrow> usable h \<Longrightarrow>
     state_error (last_state (command_buffer h')) \<noteq> kNoError"
  by (auto simp: Finish_def split: if_splits dest: Finish_loop_false)

lemma InsertToken_result:
  assumes "InsertToken k h = Inr (t, h')"
  shows "\<exists>b h0. AllocateRingBuffer k h = Inr (b, h0) \<and> usable h' = usable h0 \<and>
     token h' = t \<and>
     (\<not> usable h0 \<longrightarrow> t = token h \<and> h' = h0) \<and>
     (usable h0 \<longrightarrow> t = (token h + 1) AND 0x7FFFFFFF \<and>
        ring_buffer_id h' = ring_buffer_id h0 \<and>
        (t = 0 \<and> state_error (last_state (command_buffer h')) = kNoError \<longrightarrow>
           put h' = get_offset h'))"
proof -
  from assms obtain b h0 where al: "AllocateRingBuffer k h = Inr (b, h0)"
    by (auto simp: InsertToken_def split: sum.splits)
  note ar = AllocateRingBuffer_result [OF al]
  show ?thesis
  proof (cases "usable h0")
    case False
    with assms al have "t = token h0" "h' = h0" by (auto simp: InsertToken_def)
    with al ar False show ?thesis by auto
  next
    case u: True
    define t' where "t' = (token h + 1) AND 0x7FFFFFFF"
    define g where "g = h0\<lparr>token := t'\<rparr>"
    have ug: "usable g" and rg: "HaveRingBuffer g"
      using u ar(4) by (simp_all add: g_def HaveRingBuffer_def)
    from assms al u obtain sp h1 where gs: "GetSpace k (kSetTokenEntries k) g = Inr (sp, h1)"
      by (auto simp: InsertToken_def g_def t'_def ar(1) split: sum.splits)
    note s1 = GetSpace_result(2) [OF gs ug rg]
    then have f1: "token h1 = t'" "usable h1" "ring_buffer_id h1 = ring_buffer_id h0"
      using ug by (simp_all add: same_ring_def g_def)
    show ?thesis
    proof (cases sp)
      case None
      with assms al u gs have "t = token h1" "h' = h1"
        by (auto simp: InsertToken_def g_def t'_def ar(1))
      with al u f1 GetSpace_result(3) [OF gs ug rg None] show ?thesis
        by (auto simp: t'_def)
    next
      case (Some cmd)
      define h2 where "h2 = h1\<lparr>entries := SetToken_Init (entries h1) cmd (token h1)\<rparr>"
      have f2: "token h2 = t'" "usable h2" "ring_buffer_id h2 = ring_buffer_id h0"
        using f1 by (simp_all add: h2_def)
      show ?thesis
      proof (cases "t' = 0")
        case False
        with assms al u gs Some f2 have "t = token h2" "h' = h2"
          by (auto simp: InsertToken_def g_def t'_def ar(1) h2_def Let_def)
        with al u f2 False show ?thesis by (auto simp: t'_def)
      next
        case True
        with assms al u gs Some f2 obtain fin h3 where fi: "Finish k h2 = Inr (fin, h3)"
          and r: "t = token h3" "h' = h3"
          by (auto simp: InsertToken_def g_def t'_def ar(1) h2_def Let_def split: sum.splits)
        from Finish_same_ring [OF fi] f2
        have f3: "token h3 = t'" "usable h3" "ring_buffer_id h3 = ring_buffer_id h0"
          by (simp_all add: same_ring_def)
        have "put h3 = get_offset h3"
          if "state_error (last_state (command_buffer h3)) = kNoError"
        proof (cases fin)
          case True
          with fi show ?thesis by (simp add: Finish_true)
        next
          case False
          with fi f2 that show ?thesis by (auto dest: Finish_false)
        qed
        with al u f3 r show ?thesis by (auto simp: t'_def)
      qed
    qed
  qed
qed

subsection \<open>Every operation\<close>

lemma run_usable_mono:
  assumes "run k op h = Inr h'" "usable h'"
  shows "usable h"
proof (cases op)
  case (OpSetAutomaticFlushes b)
  with assms show ?thesis
    by (auto simp: SetAutomaticFlushes_def dest: CalcImmediateEntries_same(2))
next
  case OpIsContextLost
  with assms show ?thesis by (auto simp: IsContextLost_def Let_def split: if_splits)
next
  case (OpCalcImmediateEntries n)
  with assms show ?thesis by (auto dest: CalcImmediateEntries_same(2))
next
  case OpAllocateRingBuffer
  with assms show ?thesis
    by (auto simp: forget_def split: sum.splits dest: AllocateRingBuffer_result(2))
next
  case OpFreeResources
  with assms show ?thesis by (auto dest: FreeResources_result(1))
next
  case OpFreeRingBuffer
  with assms show ?thesis
    by (auto simp: FreeRingBuffer_def split: if_splits dest: FreeResources_result(1))
next
  case (OpInitialize sz)
  with assms show ?thesis
    by (auto simp: forget_def Initialize_def split: sum.splits
        dest: AllocateRingBuffer_result(2))
next
  case OpFlushSync
  with assms show ?thesis
    by (auto simp: forget_def split: sum.splits dest: FlushSync_same(1))
next
  case OpFlush
  with assms show ?thesis by (auto dest: Flush_same(1))
next
  case OpFinish
  with assms show ?thesis
    by (auto simp: forget_def same_ring_def split: sum.splits dest!: Finish_same_ring)
next
  case OpInsertToken
  with assms obtain t where "InsertToken k h = Inr (t, h')"
    by (auto simp: forget_def split: sum.splits)
  from InsertToken_result [OF this] assms(2) show ?thesis
    by (auto dest: AllocateRingBuffer_result(2))
next
  case (OpWaitForToken t)
  with assms show ?thesis by (auto simp: same_ring_def dest!: WaitForToken_same_ring)
next
  case (OpWaitForAvailableEntries n)
  with assms have "WaitForAvailableEntries k n h = Inr h'" by simp
  from WaitForAvailableEntries_result(1) [OF this] assms(2) show ?thesis
    by (auto simp: same_ring_def dest: AllocateRingBuffer_result(2))
next
  case (OpGetSpace n)
  with assms obtain sp where "GetSpace k n h = Inr (sp, h')"
    by (auto simp: forget_def split: sum.splits)
  from GetSpace_result(1) [OF this] assms(2) show ?thesis
    by (auto simp: same_ring_def dest: AllocateRingBuffer_result(2))
qed

lemma run_all_usable_mono:
  "run_all k ops h = Inr h' \<Longrightarrow> usable h' \<Longrightarrow> usable h"
proof (induction ops arbitrary: h)
  case Nil
  then show ?case by simp
next
  case (Cons op ops)
  from Cons.prems(1) obtain h1 where r: "run k op h = Inr h1" and rs: "run_all k ops h1 = Inr h'"
    by (auto split: sum.splits)
  from Cons.IH [OF rs Cons.prems(2)] have "usable h1" .
  with r show ?case by (rule run_usable_mono)
qed

lemma run_usable_kept:
  assumes "run k op h = Inr h'" "usable h" "HaveRingBuffer h"
  shows "usable h'"
proof (cases op)
  case (OpSetAutomaticFlushes b)
  with assms show ?thesis
    by (auto simp: SetAutomaticFlushes_def dest: CalcImmediateEntries_same(2))
next
  case OpIsContextLost
  with assms show ?thesis by (auto simp: IsContextLost_def Let_def split: if_splits)
next
  case (OpCalcImmediateEntries n)
  with assms show ?thesis by (auto dest: CalcImmediateEntries_same(2))
next
  case OpAllocateRingBuffer
  with assms show ?thesis
    by (auto simp: forget_def AllocateRingBuffer_installed)
next
  case OpFreeResources
  with assms show ?thesis by (auto dest: FreeResources_result(1))
next
  case OpFreeRingBuffer
  with assms show ?thesis
    by (auto simp: FreeRingBuffer_def split: if_splits dest: FreeResources_result(1))
next
  case (OpInitialize sz)
  have "usable (h\<lparr>ring_buffer_size := sz\<rparr>)" "HaveRingBuffer (h\<lparr>ring_buffer_size := sz\<rparr>)"
    using assms by (simp_all add: HaveRingBuffer_def)
  from AllocateRingBuffer_installed [OF this, of k] OpInitialize assms show ?thesis
    by (auto simp: forget_def Initialize_def)
next
  case OpFlushSync
  with assms show ?thesis
    by (auto simp: forget_def split: sum.splits dest: FlushSync_same(1))
next
  case OpFlush
  with assms show ?thesis by (auto dest: Flush_same(1))
next
  case OpFinish
  with assms show ?thesis
    by (auto simp: forget_def same_ring_def split: sum.splits dest!: Finish_same_ring)
next
  case OpInsertToken
  with assms obtain t where "InsertToken k h = Inr (t, h')"
    by (auto simp: forget_def split: sum.splits)
  from InsertToken_result [OF this] assms(2,3) show ?thesis
    by (auto simp: AllocateRingBuffer_installed)
next
  case (OpWaitForToken t)
  with assms show ?thesis by (auto simp: same_ring_def dest!: WaitForToken_same_ring)
next
  case (OpWaitForAvailableEntries n)
  with assms have "WaitForAvailableEntries k n h = Inr h'" by simp
  from WaitForAvailableEntries_result(2) [OF this assms(2,3)] assms(2) show ?thesis
    by (simp add: same_ring_def)
next
  case (OpGetSpace n)
  with assms obtain sp where "GetSpace k n h = Inr (sp, h')"
    by (auto simp: forget_def split: sum.splits)
  from GetSpace_result(2) [OF this assms(2,3)] assms(2) show ?thesis
    by (simp add: same_ring_def)
qed

lemma run_token:
  assumes "run k op h = Inr h'" "0 \<le> token h" "token h \<le> 0x7FFFFFFF"
  shows "0 \<le> token h' \<and> token h' \<le> 0x7FFFFFFF"
proof (cases op)
  case (OpSetAutomaticFlushes b)
  with assms show ?thesis
    by (auto simp: SetAutomaticFlushes_def dest: CalcImmediateEntries_same(7))
next
  case OpIsContextLost
  with assms show ?thesis by (auto simp: IsContextLost_def Let_def split: if_splits)
next
  case (OpCalcImmediateEntries n)
  with assms show ?thesis by (auto dest: CalcImmediateEntries_same(7))
next
  case OpAllocateRingBuffer
  with assms show ?thesis
    by (auto simp: forget_def split: sum.splits dest: AllocateRingBuffer_result(1))
next
  case OpFreeResources
  with assms show ?thesis by (auto dest: FreeResources_result(2))
next
  case OpFreeRingBuffer
  with assms show ?thesis
    by (auto simp: FreeRingBuffer_def split: if_splits dest: FreeResources_result(2))
next
  case (OpInitialize sz)
  with assms show ?thesis
    by (auto simp: forget_def Initialize_def split: sum.splits
        dest: AllocateRingBuffer_result(1))
next
  case OpFlushSync
  with assms show ?thesis
    by (auto simp: forget_def split: sum.splits dest: FlushSync_same(4))
next
  case OpFlush
  with assms show ?thesis by (auto dest: Flush_same(4))
next
  case OpFinish
  with assms show ?thesis
    by (auto simp: forget_def same_ring_def split: sum.splits dest!: Finish_same_ring)
next
  case OpInsertToken
  with assms obtain t where "InsertToken k h = Inr (t, h')"
    by (auto simp: forget_def split: sum.splits)
  from InsertToken_result [OF this] assms(2,3) token_mask_range [of "token h + 1"]
  show ?thesis by auto
next
  case (OpWaitForToken t)
  with assms show ?thesis by (auto simp: same_ring_def dest!: WaitForToken_same_ring)
next
  case (OpWaitForAvailableEntries n)
  with assms have "WaitForAvailableEntries k n h = Inr h'" by simp
  from WaitForAvailableEntries_result(1) [OF this] assms(2,3) show ?thesis
    by (auto simp: same_ring_def dest: AllocateRingBuffer_result(1))
next
  case (OpGetSpace n)
  with assms obtain sp where "GetSpace k n h = Inr (sp, h')"
    by (auto simp: forget_def split: sum.splits)
  from GetSpace_result(1) [OF this] assms(2,3) show ?thesis
    by (auto simp: same_ring_def dest: AllocateRingBuffer_result(1))
qed



lemmas alloc_defs = AllocateRingBuffer_def channel_CreateTransferBuffer_def
  channel_SetGetBuffer_def channel_GetState_def num_ring_buffer_entries_def ClearUsable_def
  Initialize_def FreeResources_def FreeRingBuffer_def channel_DestroyTransferBuffer_def
  IsError_def forget_def

lemmas wait_defs = WaitForAvailableEntries_def wait_for_immediate_def wrap_around_def
  GetSpace_def add_int32_def wait_entries_loop.simps wrap_wait_loop.simps noop_fill.simps
  Noop_Set_def

lemmas token_defs = InsertToken_def SetToken_Init_def Finish_def Finish_loop.simps

lemma sdiv_nonneg: "0 \<le> (a::int) \<Longrightarrow> 0 < b \<Longrightarrow> a sdiv b = a div b"
  by (simp add: signed_divide_int_def sgn_if)

lemma CalcImmediateEntries_auto:
  assumes "usable h" "HaveRingBuffer h" "flush_automatically h"
    "total_entry_count h \<noteq> 0" "kAutoFlushSmall k \<noteq> 0" "kAutoFlushBig k \<noteq> 0"
  shows "CalcImmediateEntries k w h =
     Inr (h\<lparr>immediate_entry_count :=
            (if 0 < pending_entries h \<and>
                total_entry_count h sdiv flush_divisor k h \<le> pending_entries h
             then 0
             else min (ComputeWritable_spec (total_entry_count h) (put h) (get_offset h))
                    (max (total_entry_count h sdiv flush_divisor k h - pending_entries h)
                       w))\<rparr>)"
proof -
  define P where "P = pending_entries h"
  define L where "L = total_entry_count h sdiv flush_divisor k h"
  define W where "W = ComputeWritable_spec (total_entry_count h) (put h) (get_offset h)"
  have d: "flush_divisor k h \<noteq> 0" using assms(5,6) by (simp add: flush_divisor_def)
  have m: "(if W > (if L - P < w then w else L - P) then (if L - P < w then w else L - P) else W)
      = min W (max (L - P) w)"
    by (simp add: min_def max_def)
  have "CalcImmediateEntries k w h =
     (if 0 < P \<and> L \<le> P then Inr (h\<lparr>immediate_entry_count := 0\<rparr>)
      else Inr (h\<lparr>immediate_entry_count :=
             (if W > (if L - P < w then w else L - P)
              then (if L - P < w then w else L - P) else W)\<rparr>))"
  proof (cases "get_offset h > put h")
    case True
    with assms d show ?thesis
      unfolding P_def L_def W_def pending_entries_def flush_divisor_def
      by (simp add: CalcImmediateEntries_def Let_def ComputeWritable_spec_def)
  next
    case False
    with assms d show ?thesis
      unfolding P_def L_def W_def pending_entries_def flush_divisor_def
      by (simp add: CalcImmediateEntries_def Let_def ComputeWritable_spec_def)
  qed
  then show ?thesis unfolding m unfolding P_def L_def W_def by simp
qed

subsection \<open>The wait for a token\<close>

lemma waiting_loop:
  "waiting k tok h h1 \<Longrightarrow> WaitForToken_loop k tok h = WaitForToken_loop k tok h1"
proof (induction rule: waiting.induct)
  case (waiting_start k tok h)
  show ?case by simp
next
  case (waiting_step k tok h h1 h2)
  have "WaitForToken_loop k tok h1 = WaitForToken_loop k tok h2"
    using waiting_step.hyps(2-4) by (subst WaitForToken_loop.simps) simp
  with waiting_step.IH show ?case by simp
qed

lemma WaitForToken_loop_fatal: 
  "last_token_read h < tok \<Longrightarrow> get_offset h = put h \<Longrightarrow>
     WaitForToken_loop k tok h = Inl (FatalLog h)"
  by (subst WaitForToken_loop.simps) simp

lemma WaitForToken_loop_return:
  "WaitForToken_loop k tok h = Inr h' \<Longrightarrow> usable h \<Longrightarrow>
     tok \<le> last_token_read h' \<or> state_error (last_state (command_buffer h')) \<noteq> kNoError"
proof (induction k tok h rule: WaitForToken_loop.induct)
  case (1 k tok h)
  show ?case
  proof (cases "last_token_read h < tok")
    case False
    with "1.prems" have "h' = h" by (subst (asm) WaitForToken_loop.simps) simp
    with False show ?thesis by simp
  next
    case True
    with "1.prems" have ne: "get_offset h \<noteq> put h"
      by (subst (asm) WaitForToken_loop.simps) (auto split: if_splits)
    with True "1.prems" obtain ok h1 where fs: "FlushSync k h = Inr (ok, h1)"
      by (subst (asm) WaitForToken_loop.simps) (auto split: sum.splits)
    show ?thesis
    proof (cases ok)
      case False
      with True ne fs "1.prems" have "h' = h1"
        by (subst (asm) WaitForToken_loop.simps) simp
      with fs False "1.prems"(2) show ?thesis by (auto dest: FlushSync_false_error)
    next
      case ok: True
      with True ne fs "1.prems" have "WaitForToken_loop k tok h1 = Inr h'"
        by (subst (asm) WaitForToken_loop.simps) simp
      moreover have "usable h1" using FlushSync_same(1) [OF fs] "1.prems"(2) by simp
      ultimately show ?thesis using "1.IH" [OF True ne fs refl] ok by simp
    qed
  qed
qed

subsection \<open>After the wrap\<close>




subsection \<open>Losing usability\<close>

lemma AllocateRingBuffer_lost:
  assumes "AllocateRingBuffer k h = Inr (b, g)" "usable h" "\<not> usable g"
  shows "\<not> HaveRingBuffer h \<and> \<not> b \<and>
    (\<exists>i is. create_ids (command_buffer h) = i # is \<and>
       (i < 0 \<or> (\<exists>r rs. replies (command_buffer h) = r # rs \<and>
           num_ring_buffer_entries k (ring_buffer_size h) > state_num_entries r)))"
proof -
  have nr: "\<not> HaveRingBuffer h"
    using assms by (auto simp: AllocateRingBuffer_installed)
  have b: "\<not> b" using AllocateRingBuffer_result(3) [OF assms(1)] assms(3) by simp
  from assms(1,2) nr obtain i cb1 where cr:
    "channel_CreateTransferBuffer (ring_buffer_size h) (command_buffer h) = Some (i, cb1)"
    by (auto simp: AllocateRingBuffer_def split: option.splits)
  then obtain "is" where ci: "create_ids (command_buffer h) = i # is"
    and cb1: "cb1 = (command_buffer h)\<lparr>calls := calls (command_buffer h) @
        [CreateTransferBufferCall (ring_buffer_size h)], create_ids := is\<rparr>"
    by (auto simp: channel_CreateTransferBuffer_def split: list.splits)
  show ?thesis
  proof (cases "i < 0")
    case True
    with nr b ci show ?thesis by blast
  next
    case False
    with assms(1,2) nr cr obtain state cb2 where gs:
      "channel_GetState (channel_SetGetBuffer i cb1) = Some (state, cb2)"
      by (auto simp: AllocateRingBuffer_def split: option.splits)
    then obtain rs where rr: "replies (command_buffer h) = state # rs"
      by (auto simp: channel_GetState_def channel_SetGetBuffer_def cb1 split: list.splits)
    have "num_ring_buffer_entries k (ring_buffer_size h) > state_num_entries state"
    proof (rule ccontr)
      assume n: "\<not> num_ring_buffer_entries k (ring_buffer_size h) > state_num_entries state"
      define h2 where "h2 = h\<lparr>command_buffer := cb2, ring_buffer_id := i,
          entries := (\<lambda>_. Unwritten)\<rparr>"
      from assms(1,2) nr cr False gs n obtain h3 where
        c: "CalcImmediateEntries k 0
               (h2\<lparr>total_entry_count := num_ring_buffer_entries k (ring_buffer_size h2),
                   put := state_put_offset state\<rparr>) = Inr h3"
        and g: "g = h3"
        by (auto simp: AllocateRingBuffer_def Let_def h2_def split: if_splits sum.splits)
      from CalcImmediateEntries_same(2) [OF c] g assms(2,3) show False
        by (simp add: h2_def)
    qed
    with nr b ci rr show ?thesis by blast
  qed
qed

lemma run_usable_same:
  assumes "\<not> allocates op" "run k op h = Inr h'"
  shows "usable h' = usable h"
proof (cases op)
  case (OpSetAutomaticFlushes b)
  with assms show ?thesis
    by (auto simp: SetAutomaticFlushes_def dest: CalcImmediateEntries_same(2))
next
  case OpIsContextLost
  with assms show ?thesis by (auto simp: IsContextLost_def Let_def split: if_splits)
next
  case (OpCalcImmediateEntries n)
  with assms show ?thesis by (auto dest: CalcImmediateEntries_same(2))
next
  case OpFreeResources
  with assms show ?thesis by (auto dest: FreeResources_result(1))
next
  case OpFreeRingBuffer
  with assms show ?thesis
    by (auto simp: FreeRingBuffer_def split: if_splits dest: FreeResources_result(1))
next
  case OpFlushSync
  with assms show ?thesis
    by (auto simp: forget_def split: sum.splits dest: FlushSync_same(1))
next
  case OpFlush
  with assms show ?thesis by (auto dest: Flush_same(1))
next
  case OpFinish
  with assms show ?thesis
    by (auto simp: forget_def same_ring_def split: sum.splits dest!: Finish_same_ring)
next
  case (OpWaitForToken t)
  with assms show ?thesis by (auto simp: same_ring_def dest!: WaitForToken_same_ring)
qed (use assms in simp_all)

lemma run_usable_lost:
  assumes "run k op h = Inr h'" "usable h" "\<not> usable h'"
  shows "allocates op \<and>
    (\<exists>b g. AllocateRingBuffer k (allocating_helper op h) = Inr (b, g) \<and> \<not> usable g)"
proof -
  have al: "allocates op" using run_usable_same [of op k h h'] assms by blast
  then consider "op = OpAllocateRingBuffer" | sz where "op = OpInitialize sz"
    | "op = OpInsertToken" | n where "op = OpWaitForAvailableEntries n"
    | n where "op = OpGetSpace n"
    by (cases op) simp_all
  then have "\<exists>b g. AllocateRingBuffer k (allocating_helper op h) = Inr (b, g) \<and> \<not> usable g"
  proof cases
    case 1
    with assms show ?thesis by (auto simp: forget_def split: sum.splits)
  next
    case 2
    with assms show ?thesis by (auto simp: forget_def Initialize_def split: sum.splits)
  next
    case 3
    with assms obtain t where "InsertToken k h = Inr (t, h')"
      by (auto simp: forget_def split: sum.splits)
    from InsertToken_result [OF this] assms(3) 3 show ?thesis by auto
  next
    case 4
    with assms have "WaitForAvailableEntries k n h = Inr h'" by simp
    from WaitForAvailableEntries_result(1) [OF this] assms(3) 4 show ?thesis
      by (auto simp: same_ring_def)
  next
    case 5
    with assms obtain sp where "GetSpace k n h = Inr (sp, h')"
      by (auto simp: forget_def split: sum.splits)
    from GetSpace_result(1) [OF this] assms(2,3) 5 show ?thesis
      by (auto simp: same_ring_def)
  qed
  with al show ?thesis by blast
qed

lemma allocating_helper_same:
  "usable (allocating_helper op h) = usable h"
  "HaveRingBuffer (allocating_helper op h) = HaveRingBuffer h"
  "command_buffer (allocating_helper op h) = command_buffer h"
  by (cases op; simp add: HaveRingBuffer_def)+

section \<open>Waiting for a token that was not issued\<close>

text \<open>
  C5. \<^verbatim>\<open>WaitForToken(value)\<close> with a value above the token issued last returns at once:
  the helper and the channel, with its log of calls and the answers the service has yet to
  give, are as before. This holds in every state of the helper.
\<close>

theorem WaitForToken_stale_returns:
  "token h < tok \<Longrightarrow> WaitForToken k tok h = Inr h"
  by (simp add: WaitForToken_def)

theorem WaitForToken_stale_returns_witness:
  "token ((ring8 0 0 (service_at 0 0 []))\<lparr>token := 3\<rparr>) < 5 \<and>
   WaitForToken example_constants 5 ((ring8 0 0 (service_at 0 0 []))\<lparr>token := 3\<rparr>)
     = Inr ((ring8 0 0 (service_at 0 0 []))\<lparr>token := 3\<rparr>)"
  using WaitForToken_stale_returns
    [of "(ring8 0 0 (service_at 0 0 []))\<lparr>token := 3\<rparr>" 5 example_constants]
  by simp

section \<open>The writable entries\<close>

text \<open>
  C1, as the program has it. \<^verbatim>\<open>CalcImmediateEntries\<close> computes the count from the
  current state alone: the count that was cached before has no influence on it. For every
  usable helper with a ring installed, with automatic flushing disabled the count is the
  specification's formula (\<open>get - put - 1\<close> if \<open>get > put\<close>, otherwise
  \<open>capacity - put\<close> minus one slot exactly when \<open>get = 0\<close>). With automatic flushing
  enabled (capacity and divisors non-zero) the count is zero when a flush is forced, and
  otherwise the smaller of that value and of the limit, which is \<open>capacity / N - pending\<close>
  or the waiting count if that is larger. In every case the count is at most the larger of
  that value and zero: the value itself is \<open>-1\<close> at \<open>put = capacity\<close> with \<open>get = 0\<close>.
  For capacity 8, \<open>put = 3\<close> and \<open>get = 3\<close> the formula gives 5.
\<close>

theorem CalcImmediateEntries_writable:
  assumes "usable h" "HaveRingBuffer h"
  shows "(\<not> flush_automatically h \<longrightarrow>
           CalcImmediateEntries k w h =
             Inr (h\<lparr>immediate_entry_count :=
                    ComputeWritable_spec (total_entry_count h) (put h) (get_offset h)\<rparr>)) \<and>
         (\<forall>h'. CalcImmediateEntries k w h = Inr h' \<longrightarrow>
            immediate_entry_count h' \<le>
              max 0 (ComputeWritable_spec (total_entry_count h) (put h) (get_offset h))) \<and>
         (flush_automatically h \<and> total_entry_count h \<noteq> 0 \<and>
          kAutoFlushSmall k \<noteq> 0 \<and> kAutoFlushBig k \<noteq> 0 \<longrightarrow>
            CalcImmediateEntries k w h =
              Inr (h\<lparr>immediate_entry_count :=
                     (if 0 < pending_entries h \<and>
                         total_entry_count h sdiv flush_divisor k h \<le> pending_entries h
                      then 0
                      else min (ComputeWritable_spec (total_entry_count h) (put h)
                                  (get_offset h))
                             (max (total_entry_count h sdiv flush_divisor k h
                                     - pending_entries h) w))\<rparr>)) \<and>
         (\<forall>n. CalcImmediateEntries k w (h\<lparr>immediate_entry_count := n\<rparr>) =
               CalcImmediateEntries k w h)"
proof (intro conjI allI impI)
  show "CalcImmediateEntries k w h =
      Inr (h\<lparr>immediate_entry_count :=
             (if 0 < pending_entries h \<and>
                 total_entry_count h sdiv flush_divisor k h \<le> pending_entries h
              then 0
              else min (ComputeWritable_spec (total_entry_count h) (put h) (get_offset h))
                     (max (total_entry_count h sdiv flush_divisor k h - pending_entries h)
                        w))\<rparr>)"
    if "flush_automatically h \<and> total_entry_count h \<noteq> 0 \<and>
        kAutoFlushSmall k \<noteq> 0 \<and> kAutoFlushBig k \<noteq> 0"
    using that assms CalcImmediateEntries_auto [of h k w] by blast
  show "CalcImmediateEntries k w h =
      Inr (h\<lparr>immediate_entry_count :=
             ComputeWritable_spec (total_entry_count h) (put h) (get_offset h)\<rparr>)"
    if "\<not> flush_automatically h"
    using that assms by (simp add: CalcImmediateEntries_def ComputeWritable_spec_def Let_def)
  show "immediate_entry_count h' \<le>
      max 0 (ComputeWritable_spec (total_entry_count h) (put h) (get_offset h))"
    if "CalcImmediateEntries k w h = Inr h'" for h'
    using that assms
    by (auto simp: CalcImmediateEntries_def ComputeWritable_spec_def Let_def split: if_splits)
  show "CalcImmediateEntries k w (h\<lparr>immediate_entry_count := n\<rparr>) =
      CalcImmediateEntries k w h" for n
    by (simp add: CalcImmediateEntries_def Let_def HaveRingBuffer_def get_offset_def)
qed

theorem CalcImmediateEntries_writable_witness:
  "usable ((ring8 3 3 (service_at 3 0 []))\<lparr>flush_automatically := False\<rparr>) \<and>
   HaveRingBuffer ((ring8 3 3 (service_at 3 0 []))\<lparr>flush_automatically := False\<rparr>) \<and>
   CalcImmediateEntries example_constants 0
       ((ring8 3 3 (service_at 3 0 []))\<lparr>flush_automatically := False\<rparr>) =
     Inr ((ring8 3 3 (service_at 3 0 []))
            \<lparr>flush_automatically := False, immediate_entry_count := 5\<rparr>) \<and>
   usable (ring8 8 3 (service_at 0 0 [])) \<and> HaveRingBuffer (ring8 8 3 (service_at 0 0 [])) \<and>
   flush_automatically (ring8 8 3 (service_at 0 0 [])) \<and>
   ComputeWritable_spec (total_entry_count (ring8 8 3 (service_at 0 0 [])))
       (put (ring8 8 3 (service_at 0 0 []))) (get_offset (ring8 8 3 (service_at 0 0 []))) = - 1 \<and>
   CalcImmediateEntries example_constants 0 (ring8 8 3 (service_at 0 0 [])) =
     Inr ((ring8 8 3 (service_at 0 0 []))\<lparr>immediate_entry_count := 0\<rparr>)"
proof -
  let ?a = "(ring8 3 3 (service_at 3 0 []))\<lparr>flush_automatically := False\<rparr>"
  let ?b = "ring8 8 3 (service_at 0 0 [])"
  have a: "usable ?a" "HaveRingBuffer ?a" and na: "\<not> flush_automatically ?a"
    and fa: "ComputeWritable_spec (total_entry_count ?a) (put ?a) (get_offset ?a) = 5"
    by (simp_all add: example_defs HaveRingBuffer_def get_offset_def ComputeWritable_spec_def)
  have b: "usable ?b" "HaveRingBuffer ?b"
    and nb: "flush_automatically ?b \<and> total_entry_count ?b \<noteq> 0 \<and>
      kAutoFlushSmall example_constants \<noteq> 0 \<and> kAutoFlushBig example_constants \<noteq> 0"
    and fb: "ComputeWritable_spec (total_entry_count ?b) (put ?b) (get_offset ?b) = - 1"
    and pb: "pending_entries ?b = 5" "total_entry_count ?b sdiv flush_divisor example_constants ?b = 4"
    by (simp_all add: example_defs HaveRingBuffer_def get_offset_def ComputeWritable_spec_def
        pending_entries_def flush_divisor_def)
  from CalcImmediateEntries_writable [OF a, of example_constants 0] na fa
  have A: "CalcImmediateEntries example_constants 0 ?a =
      Inr (?a\<lparr>immediate_entry_count := 5\<rparr>)" by simp
  from CalcImmediateEntries_writable [OF b, of example_constants 0] nb
  have "CalcImmediateEntries example_constants 0 ?b =
      Inr (?b\<lparr>immediate_entry_count :=
             (if 0 < pending_entries ?b \<and>
                 total_entry_count ?b sdiv flush_divisor example_constants ?b
                   \<le> pending_entries ?b
              then 0
              else min (ComputeWritable_spec (total_entry_count ?b) (put ?b) (get_offset ?b))
                     (max (total_entry_count ?b sdiv flush_divisor example_constants ?b
                             - pending_entries ?b) 0))\<rparr>)"
    by blast
  then have B: "CalcImmediateEntries example_constants 0 ?b =
      Inr (?b\<lparr>immediate_entry_count := 0\<rparr>)"
    unfolding pb by simp
  from a b nb fb A B show ?thesis by (simp add: example_defs)
qed

text \<open>
  C1 as stated fails. First the scenario, run from the constructor: a ring of eight entries
  is allocated, automatic flushing is switched off, three entries are reserved, and a
  synchronous flush brings the answer \<open>get = 3\<close>; the count is then 5, not 4 (nothing is
  subtracted, since \<open>get\<close> is not \<open>0\<close>). Second, with automatic flushing enabled (as the
  constructor leaves it) the count is not the formula: at \<open>put = 6\<close>, \<open>get = 1\<close>,
  \<open>last_put_sent = 1\<close> five entries are pending, which is at least the capacity divided by
  any divisor from 2 on, and the count is 0 where the formula gives 2. Third, the count can
  even be more than the formula: at \<open>put = 8\<close> (the capacity), \<open>get = 0\<close>,
  \<open>last_put_sent = 3\<close> the formula gives \<open>-1\<close> and the count is 0.
\<close>

theorem CalcImmediateEntries_scenario_A_counterexample:
  "run_all example_constants
       [OpInitialize 32, OpSetAutomaticFlushes False, OpGetSpace 3, OpFlushSync]
       (CommandBufferHelper
          \<lparr>last_state = answer 0 0 0, calls = [], create_ids = [1],
           replies = [answer 0 0 0, answer 3 0 0]\<rparr> 100 0) =
     Inr ((ring8 3 3
            \<lparr>last_state = answer 3 0 0,
             calls = [CreateTransferBufferCall 32, SetGetBufferCall 1, GetStateCall,
                      FlushSyncCall 3 0],
             create_ids = [], replies = []\<rparr>)
          \<lparr>flush_automatically := False, immediate_entry_count := 5,
           last_flush_time := 100, flush_generation := 1\<rparr>) \<and>
   ComputeWritable_spec 8 6 1 = 2 \<and>
   CalcImmediateEntries example_constants 0 (ring8 6 1 (service_at 1 0 [])) =
     Inr ((ring8 6 1 (service_at 1 0 []))\<lparr>immediate_entry_count := 0\<rparr>) \<and>
   ComputeWritable_spec 8 8 0 = - 1 \<and>
   CalcImmediateEntries example_constants 0 (ring8 8 3 (service_at 0 0 [])) =
     Inr ((ring8 8 3 (service_at 0 0 []))\<lparr>immediate_entry_count := 0\<rparr>)"
  by (simp add: wait_defs alloc_defs example_defs run_defs ComputeWritable_spec_def
      SetAutomaticFlushes_def)

section \<open>Wrapping the ring\<close>




section \<open>Inserting tokens\<close>




section \<open>Waiting for a token on an empty ring\<close>

text \<open>
  C4. While \<^verbatim>\<open>WaitForToken(value)\<close> is waiting, that is while the token acknowledged
  by the service is below the value, a ring observed empty (\<open>get = put\<close>) ends the call with
  the fatal log, in the state in which the ring was observed: no further flush is made and
  the call does not return normally. This holds at every iteration of the loop. For the call
  itself (usable helper, ring installed, \<open>0 \<le> value \<le> token\<close>) it holds when the ring is
  empty at the entry; when it becomes empty through the answer to the first flush, the log of
  calls then ending with that flush; and when it becomes empty after any number of
  iterations of the wait. A call that returns normally has seen the token acknowledged or an
  error reported.
\<close>

theorem WaitForToken_empty_fatal:
  "(last_token_read h < tok \<and> get_offset h = put h \<longrightarrow>
      WaitForToken_loop k tok h = Inl (FatalLog h)) \<and>
   (usable h \<and> HaveRingBuffer h \<and> 0 \<le> tok \<and> tok \<le> token h \<longrightarrow>
      (last_token_read h < tok \<and> get_offset h = put h \<longrightarrow>
         WaitForToken k tok h = Inl (FatalLog h)) \<and>
      (\<forall>h1. last_token_read h < tok \<and> get_offset h \<noteq> put h \<and>
           FlushSync k h = Inr (True, h1) \<and>
           last_token_read h1 < tok \<and> get_offset h1 = put h1 \<longrightarrow>
         WaitForToken k tok h = Inl (FatalLog h1) \<and>
         calls (command_buffer h1) =
           calls (command_buffer h) @ [FlushSyncCall (wrapped_put h) (get_offset h)]) \<and>
      (\<forall>h1. waiting k tok h h1 \<and> last_token_read h1 < tok \<and> get_offset h1 = put h1 \<longrightarrow>
         WaitForToken k tok h = Inl (FatalLog h1)) \<and>
      (\<forall>h'. WaitForToken k tok h = Inr h' \<longrightarrow>
         tok \<le> last_token_read h' \<or>
         state_error (last_state (command_buffer h')) \<noteq> kNoError))"
proof (intro conjI allI impI)
  show "WaitForToken_loop k tok h = Inl (FatalLog h)"
    if "last_token_read h < tok \<and> get_offset h = put h"
    using that by (simp add: WaitForToken_loop_fatal)
next
  assume g: "usable h \<and> HaveRingBuffer h \<and> 0 \<le> tok \<and> tok \<le> token h"
  then have w: "WaitForToken k tok h = WaitForToken_loop k tok h"
    by (simp add: WaitForToken_def)
  show "WaitForToken k tok h = Inl (FatalLog h)"
    if "last_token_read h < tok \<and> get_offset h = put h"
    using that w by (simp add: WaitForToken_loop_fatal)
  show "WaitForToken k tok h = Inl (FatalLog h1)"
    if "waiting k tok h h1 \<and> last_token_read h1 < tok \<and> get_offset h1 = put h1" for h1
    using that w waiting_loop [of k tok h h1] by (simp add: WaitForToken_loop_fatal)
  show "tok \<le> last_token_read h' \<or> state_error (last_state (command_buffer h')) \<noteq> kNoError"
    if "WaitForToken k tok h = Inr h'" for h'
    using that w g WaitForToken_loop_return [of k tok h h'] by simp
  fix h1
  assume s: "last_token_read h < tok \<and> get_offset h \<noteq> put h \<and>
           FlushSync k h = Inr (True, h1) \<and>
           last_token_read h1 < tok \<and> get_offset h1 = put h1"
  then have "WaitForToken_loop k tok h = WaitForToken_loop k tok h1"
    by (subst WaitForToken_loop.simps) simp
  with s w show "WaitForToken k tok h = Inl (FatalLog h1)"
    by (simp add: WaitForToken_loop_fatal)
  from s g FlushSync_effect [of k h True h1]
  show "calls (command_buffer h1) =
           calls (command_buffer h) @ [FlushSyncCall (wrapped_put h) (get_offset h)]"
    by (auto simp: wrapped_put_def)
qed

theorem WaitForToken_empty_fatal_witness:
  "usable ((ring8 2 0 (service_at 0 0 [answer 2 0 0]))\<lparr>token := 1\<rparr>) \<and>
   HaveRingBuffer ((ring8 2 0 (service_at 0 0 [answer 2 0 0]))\<lparr>token := 1\<rparr>) \<and>
   last_token_read ((ring8 2 0 (service_at 0 0 [answer 2 0 0]))\<lparr>token := 1\<rparr>) < 1 \<and>
   get_offset ((ring8 2 0 (service_at 0 0 [answer 2 0 0]))\<lparr>token := 1\<rparr>)
     \<noteq> put ((ring8 2 0 (service_at 0 0 [answer 2 0 0]))\<lparr>token := 1\<rparr>) \<and>
   WaitForToken example_constants 1
       ((ring8 2 0 (service_at 0 0 [answer 2 0 0]))\<lparr>token := 1\<rparr>) =
     Inl (FatalLog
           ((ring8 2 2 ((service_at 2 0 [])\<lparr>calls := [FlushSyncCall 2 0]\<rparr>))
              \<lparr>token := 1, last_flush_time := 100, flush_generation := 1\<rparr>)) \<and>
   WaitForToken example_constants 1 ((ring8 2 2 (service_at 2 0 []))\<lparr>token := 1\<rparr>) =
     Inl (FatalLog ((ring8 2 2 (service_at 2 0 []))\<lparr>token := 1\<rparr>)) \<and>
   WaitForToken example_constants 1
       ((ring8 4 0 (service_at 0 0 [answer 2 0 0, answer 4 0 0]))\<lparr>token := 1\<rparr>) =
     Inl (FatalLog
           ((ring8 4 4 ((service_at 4 0 [])
                          \<lparr>calls := [FlushSyncCall 4 0, FlushSyncCall 4 2]\<rparr>))
              \<lparr>token := 1, last_flush_time := 100, flush_generation := 2\<rparr>)) \<and>
   (\<exists>h'. WaitForToken example_constants 1
            ((ring8 2 0 (service_at 0 0 [answer 1 1 0]))\<lparr>token := 1\<rparr>) = Inr h' \<and>
          1 \<le> last_token_read h')"
proof -
  let ?a = "(ring8 2 2 (service_at 2 0 []))\<lparr>token := 1\<rparr>"
  let ?b = "(ring8 2 0 (service_at 0 0 [answer 2 0 0]))\<lparr>token := 1\<rparr>"
  let ?b1 = "(ring8 2 2 ((service_at 2 0 [])\<lparr>calls := [FlushSyncCall 2 0]\<rparr>))
               \<lparr>token := 1, last_flush_time := 100, flush_generation := 1\<rparr>"
  let ?c = "(ring8 4 0 (service_at 0 0 [answer 2 0 0, answer 4 0 0]))\<lparr>token := 1\<rparr>"
  let ?c1 = "(ring8 4 4 ((service_at 2 0 [answer 4 0 0])\<lparr>calls := [FlushSyncCall 4 0]\<rparr>))
               \<lparr>token := 1, last_flush_time := 100, flush_generation := 1,
                immediate_entry_count := 4\<rparr>"
  let ?c2 = "(ring8 4 4 ((service_at 4 0 [])
                          \<lparr>calls := [FlushSyncCall 4 0, FlushSyncCall 4 2]\<rparr>))
              \<lparr>token := 1, last_flush_time := 100, flush_generation := 2\<rparr>"
  let ?d = "(ring8 2 0 (service_at 0 0 [answer 1 1 0]))\<lparr>token := 1\<rparr>"
  have ga: "usable ?a \<and> HaveRingBuffer ?a \<and> (0::int) \<le> 1 \<and> 1 \<le> token ?a"
    and ea: "last_token_read ?a < 1 \<and> get_offset ?a = put ?a"
    by (simp_all add: example_defs run_defs)
  have gb: "usable ?b \<and> HaveRingBuffer ?b \<and> (0::int) \<le> 1 \<and> 1 \<le> token ?b"
    and eb: "last_token_read ?b < 1 \<and> get_offset ?b \<noteq> put ?b \<and>
      FlushSync example_constants ?b = Inr (True, ?b1) \<and>
      last_token_read ?b1 < 1 \<and> get_offset ?b1 = put ?b1"
    by (simp_all add: example_defs run_defs)
  have gc: "usable ?c \<and> HaveRingBuffer ?c \<and> (0::int) \<le> 1 \<and> 1 \<le> token ?c"
    by (simp add: example_defs run_defs)
  have gd: "usable ?d \<and> HaveRingBuffer ?d \<and> (0::int) \<le> 1 \<and> 1 \<le> token ?d"
    by (simp add: example_defs run_defs)
  have s1: "last_token_read ?c < 1 \<and> get_offset ?c \<noteq> put ?c \<and>
      FlushSync example_constants ?c = Inr (True, ?c1)"
    by (simp add: example_defs run_defs)
  have s2: "last_token_read ?c1 < 1 \<and> get_offset ?c1 \<noteq> put ?c1 \<and>
      FlushSync example_constants ?c1 = Inr (True, ?c2)"
    by (simp add: example_defs run_defs)
  have ec: "last_token_read ?c2 < 1 \<and> get_offset ?c2 = put ?c2"
    by (simp add: example_defs run_defs)
  have "waiting example_constants 1 ?c ?c1"
    using waiting_step [OF waiting_start, of ?c 1 example_constants ?c1] s1 by blast
  then have wc: "waiting example_constants 1 ?c ?c2"
    using waiting_step [of example_constants 1 ?c ?c1 ?c2] s2 by blast
  note t = WaitForToken_empty_fatal
  from ga ea t [of ?a 1 example_constants]
  have A: "WaitForToken example_constants 1 ?a = Inl (FatalLog ?a)" by blast
  from gb eb t [of ?b 1 example_constants]
  have B: "WaitForToken example_constants 1 ?b = Inl (FatalLog ?b1)" by blast
  from gc wc ec t [of ?c 1 example_constants]
  have C: "WaitForToken example_constants 1 ?c = Inl (FatalLog ?c2)" by blast
  have "\<exists>h'. WaitForToken example_constants 1 ?d = Inr h'"
    by (simp add: WaitForToken_def WaitForToken_loop.simps example_defs run_defs)
  then obtain h' where d: "WaitForToken example_constants 1 ?d = Inr h'" by blast
  have "state_error (last_state (command_buffer h')) = kNoError"
    using d by (auto simp: WaitForToken_def WaitForToken_loop.simps example_defs run_defs)
  with gd d t [of ?d 1 example_constants] have "1 \<le> last_token_read h'" by blast
  with d have D: "\<exists>h'. WaitForToken example_constants 1 ?d = Inr h' \<and> 1 \<le> last_token_read h'"
    by blast
  from gb eb A B C D show ?thesis by blast
qed

section \<open>The automatic flush\<close>

text \<open>
  C6, as the program has it. With automatic flushing enabled (usable helper, ring installed,
  capacity and divisors non-zero), \<^verbatim>\<open>CalcImmediateEntries\<close> counts as pending
  \<open>(put + capacity - last_put_sent) % capacity\<close>, which is the specification's
  \<open>(put + capacity - last_put_sent) mod capacity\<close> whenever the capacity is positive and
  \<open>last_put_sent \<le> put + capacity\<close>. When the pending entries are positive and at least
  \<open>capacity / N\<close>, the count is zero (a flush is forced); otherwise the count is the
  writable space, limited to \<open>capacity / N - pending\<close> or to the waiting count if that is
  larger. The divisor \<open>N\<close> is \<open>kAutoFlushSmall\<close> when the service has caught up
  (\<open>get = last_put_sent\<close>) and \<open>kAutoFlushBig\<close> otherwise; and of two positive divisors the
  larger gives the threshold that is not higher.
\<close>

theorem CalcImmediateEntries_auto_flush:
  assumes "usable h" "HaveRingBuffer h" "flush_automatically h"
    "total_entry_count h \<noteq> 0" "kAutoFlushSmall k \<noteq> 0" "kAutoFlushBig k \<noteq> 0"
  shows "(0 < pending_entries h \<and>
          total_entry_count h sdiv flush_divisor k h \<le> pending_entries h \<longrightarrow>
            CalcImmediateEntries k w h = Inr (h\<lparr>immediate_entry_count := 0\<rparr>)) \<and>
         (pending_entries h \<le> 0 \<or>
          pending_entries h < total_entry_count h sdiv flush_divisor k h \<longrightarrow>
            CalcImmediateEntries k w h =
              Inr (h\<lparr>immediate_entry_count :=
                     min (ComputeWritable_spec (total_entry_count h) (put h) (get_offset h))
                       (max (total_entry_count h sdiv flush_divisor k h - pending_entries h)
                          w)\<rparr>)) \<and>
         (0 < total_entry_count h \<and> last_put_sent h \<le> put h + total_entry_count h \<longrightarrow>
            pending_entries h =
              pending_spec (total_entry_count h) (put h) (last_put_sent h)) \<and>
         (get_offset h = last_put_sent h \<longrightarrow> flush_divisor k h = kAutoFlushSmall k) \<and>
         (get_offset h \<noteq> last_put_sent h \<longrightarrow> flush_divisor k h = kAutoFlushBig k) \<and>
         (0 \<le> total_entry_count h \<and> 0 < kAutoFlushSmall k \<and>
          kAutoFlushSmall k \<le> kAutoFlushBig k \<longrightarrow>
            total_entry_count h sdiv kAutoFlushBig k
              \<le> total_entry_count h sdiv kAutoFlushSmall k) \<and>
         (0 \<le> total_entry_count h \<and> 0 < kAutoFlushBig k \<and>
          kAutoFlushBig k \<le> kAutoFlushSmall k \<longrightarrow>
            total_entry_count h sdiv kAutoFlushSmall k
              \<le> total_entry_count h sdiv kAutoFlushBig k)"
proof (intro conjI impI)
  have d: "flush_divisor k h \<noteq> 0" using assms(5,6) by (simp add: flush_divisor_def)
  show "CalcImmediateEntries k w h = Inr (h\<lparr>immediate_entry_count := 0\<rparr>)"
    if "0 < pending_entries h \<and>
        total_entry_count h sdiv flush_divisor k h \<le> pending_entries h"
    using that CalcImmediateEntries_auto [OF assms, of w] by simp
  show "CalcImmediateEntries k w h =
      Inr (h\<lparr>immediate_entry_count :=
             min (ComputeWritable_spec (total_entry_count h) (put h) (get_offset h))
               (max (total_entry_count h sdiv flush_divisor k h - pending_entries h) w)\<rparr>)"
    if "pending_entries h \<le> 0 \<or>
        pending_entries h < total_entry_count h sdiv flush_divisor k h"
    using that CalcImmediateEntries_auto [OF assms, of w] by auto
  show "pending_entries h = pending_spec (total_entry_count h) (put h) (last_put_sent h)"
    if "0 < total_entry_count h \<and> last_put_sent h \<le> put h + total_entry_count h"
    using that by (simp add: pending_entries_def pending_spec_def smod_mod_positive)
  show "flush_divisor k h = kAutoFlushSmall k" if "get_offset h = last_put_sent h"
    using that by (simp add: flush_divisor_def)
  show "flush_divisor k h = kAutoFlushBig k" if "get_offset h \<noteq> last_put_sent h"
    using that by (simp add: flush_divisor_def)
  show "total_entry_count h sdiv kAutoFlushBig k \<le> total_entry_count h sdiv kAutoFlushSmall k"
    if "0 \<le> total_entry_count h \<and> 0 < kAutoFlushSmall k \<and>
        kAutoFlushSmall k \<le> kAutoFlushBig k"
    using that by (simp add: sdiv_nonneg zdiv_mono2)
  show "total_entry_count h sdiv kAutoFlushSmall k \<le> total_entry_count h sdiv kAutoFlushBig k"
    if "0 \<le> total_entry_count h \<and> 0 < kAutoFlushBig k \<and>
        kAutoFlushBig k \<le> kAutoFlushSmall k"
    using that by (simp add: sdiv_nonneg zdiv_mono2)
qed

theorem CalcImmediateEntries_auto_flush_witness:
  "usable (ring8 4 0 (service_at 2 0 [])) \<and> HaveRingBuffer (ring8 4 0 (service_at 2 0 [])) \<and>
   flush_automatically (ring8 4 0 (service_at 2 0 [])) \<and>
   pending_entries (ring8 4 0 (service_at 2 0 [])) = 4 \<and>
   pending_spec 8 4 0 = 4 \<and>
   flush_divisor example_constants (ring8 4 0 (service_at 2 0 [])) = 2 \<and>
   CalcImmediateEntries example_constants 0 (ring8 4 0 (service_at 2 0 [])) =
     Inr ((ring8 4 0 (service_at 2 0 []))\<lparr>immediate_entry_count := 0\<rparr>) \<and>
   CalcImmediateEntries example_constants 0 (ring8 3 0 (service_at 2 0 [])) =
     Inr ((ring8 3 0 (service_at 2 0 []))\<lparr>immediate_entry_count := 1\<rparr>)"
proof -
  let ?a = "ring8 4 0 (service_at 2 0 [])"
  let ?b = "ring8 3 0 (service_at 2 0 [])"
  have a: "usable ?a" "HaveRingBuffer ?a" "flush_automatically ?a"
    "total_entry_count ?a \<noteq> 0" "kAutoFlushSmall example_constants \<noteq> 0"
    "kAutoFlushBig example_constants \<noteq> 0"
    by (simp_all add: example_defs HaveRingBuffer_def)
  have b: "usable ?b" "HaveRingBuffer ?b" "flush_automatically ?b"
    "total_entry_count ?b \<noteq> 0"
    by (simp_all add: example_defs HaveRingBuffer_def)
  have pa: "pending_entries ?a = 4" and da: "flush_divisor example_constants ?a = 2"
    and ps: "pending_spec 8 4 0 = 4"
    by (simp_all add: pending_entries_def flush_divisor_def pending_spec_def example_defs
        get_offset_def)
  have pb: "pending_entries ?b = 3" and db: "flush_divisor example_constants ?b = 2"
    by (simp_all add: pending_entries_def flush_divisor_def example_defs get_offset_def)
  have ta: "total_entry_count ?a = 8" and tb: "total_entry_count ?b = 8"
    by (simp_all add: example_defs)
  from CalcImmediateEntries_auto_flush [OF a, of 0] pa da ta
  have A: "CalcImmediateEntries example_constants 0 ?a =
      Inr (?a\<lparr>immediate_entry_count := 0\<rparr>)" by simp
  have wb: "ComputeWritable_spec (total_entry_count ?b) (put ?b) (get_offset ?b) = 5"
    by (simp add: ComputeWritable_spec_def example_defs get_offset_def)
  from CalcImmediateEntries_auto_flush [OF b a(5,6), of 0] pb db tb wb
  have B: "CalcImmediateEntries example_constants 0 ?b =
      Inr (?b\<lparr>immediate_entry_count := 1\<rparr>)" by simp
  from a pa ps da A B show ?thesis by simp
qed

text \<open>
  C6 as stated fails. First, reaching the threshold forces no flush when nothing is pending:
  with capacity 8 and the divisor 16 the threshold is 0, and a helper with nothing pending
  that waits for three entries is given three. Second, a smaller divisor for the caught-up
  service is not a lower threshold. If the divisors are 2 (caught up) and 16 (otherwise), as
  the claim's first half has it, three pending entries force a flush when the service lags
  (count 0) and none when it has caught up (count 1): the threshold is higher, not lower,
  when caught up. If they are 16 and 2, giving the lower threshold when caught up, the
  divisor of the caught-up service is the larger one.
\<close>

theorem CalcImmediateEntries_auto_flush_counterexample:
  "pending_entries (ring8 0 0 (service_at 0 0 [])) = 0 \<and>
   total_entry_count (ring8 0 0 (service_at 0 0 []))
     sdiv flush_divisor example_constants (ring8 0 0 (service_at 0 0 [])) = 0 \<and>
   CalcImmediateEntries example_constants 3 (ring8 0 0 (service_at 0 0 [])) =
     Inr ((ring8 0 0 (service_at 0 0 []))\<lparr>immediate_entry_count := 3\<rparr>) \<and>
   flush_divisor (example_constants\<lparr>kAutoFlushSmall := 2, kAutoFlushBig := 16\<rparr>)
       (ring8 3 0 (service_at 0 0 [])) = 2 \<and>
   flush_divisor (example_constants\<lparr>kAutoFlushSmall := 2, kAutoFlushBig := 16\<rparr>)
       (ring8 5 2 (service_at 0 0 [])) = 16 \<and>
   pending_entries (ring8 3 0 (service_at 0 0 [])) = 3 \<and>
   pending_entries (ring8 5 2 (service_at 0 0 [])) = 3 \<and>
   CalcImmediateEntries (example_constants\<lparr>kAutoFlushSmall := 2, kAutoFlushBig := 16\<rparr>) 0
       (ring8 3 0 (service_at 0 0 [])) =
     Inr ((ring8 3 0 (service_at 0 0 []))\<lparr>immediate_entry_count := 1\<rparr>) \<and>
   CalcImmediateEntries (example_constants\<lparr>kAutoFlushSmall := 2, kAutoFlushBig := 16\<rparr>) 0
       (ring8 5 2 (service_at 0 0 [])) =
     Inr ((ring8 5 2 (service_at 0 0 []))\<lparr>immediate_entry_count := 0\<rparr>) \<and>
   flush_divisor example_constants (ring8 3 0 (service_at 0 0 [])) = 16 \<and>
   flush_divisor example_constants (ring8 5 2 (service_at 0 0 [])) = 2"
  by (simp add: pending_entries_def flush_divisor_def example_defs run_defs)

section \<open>Finish\<close>



section \<open>Usability\<close>

text \<open>
  C8, as the program has it. A new helper is usable. No sequence of operations makes an
  unusable helper usable again. On an unusable helper \<^verbatim>\<open>AllocateRingBuffer\<close> returns
  false at once: the helper, its channel and the log of calls are unchanged. A failed creation
  of the transfer buffer makes the helper unusable, and the next attempt returns false in that
  way; so does an allocation for which the service offers fewer entries than the ring needs.
  Usability is lost in no other way. While the ring is installed no operation clears it.
  In every state the operations that do not begin with an allocation leave it as it is:
  the flushes (which report the service's errors), \<^verbatim>\<open>Finish\<close>, the freeing of the
  ring, \<^verbatim>\<open>WaitForToken\<close>, \<^verbatim>\<open>IsContextLost\<close>, \<^verbatim>\<open>SetAutomaticFlushes\<close> and
  \<^verbatim>\<open>CalcImmediateEntries\<close>. And when an operation on a usable helper leaves it
  unusable, the operation begins with an allocation, no ring was installed, and
  \<^verbatim>\<open>AllocateRingBuffer\<close> has returned false there, for one of these two reasons.
\<close>

theorem usable_one_way:
  "usable (CommandBufferHelper cb now gen) \<and>
   (\<forall>ops h'. \<not> usable h \<and> run_all k ops h = Inr h' \<longrightarrow> \<not> usable h') \<and>
   (\<not> usable h \<longrightarrow> AllocateRingBuffer k h = Inr (False, h)) \<and>
   (\<forall>i is. usable h \<and> \<not> HaveRingBuffer h \<and> create_ids (command_buffer h) = i # is \<and> i < 0
      \<longrightarrow> (\<exists>h'. AllocateRingBuffer k h = Inr (False, h') \<and> \<not> usable h' \<and>
               AllocateRingBuffer k h' = Inr (False, h'))) \<and>
   (\<forall>i is r rs. usable h \<and> \<not> HaveRingBuffer h \<and>
        create_ids (command_buffer h) = i # is \<and> 0 \<le> i \<and>
        replies (command_buffer h) = r # rs \<and> kEntrySize k \<noteq> 0 \<and>
        num_ring_buffer_entries k (ring_buffer_size h) > state_num_entries r
      \<longrightarrow> (\<exists>h'. AllocateRingBuffer k h = Inr (False, h') \<and> \<not> usable h')) \<and>
   (\<forall>op h'. usable h \<and> HaveRingBuffer h \<and> run k op h = Inr h' \<longrightarrow> usable h') \<and>
   (\<forall>op h'. \<not> allocates op \<and> run k op h = Inr h' \<longrightarrow> usable h' = usable h) \<and>
   (\<forall>op h'. usable h \<and> run k op h = Inr h' \<and> \<not> usable h' \<longrightarrow>
      allocates op \<and> \<not> HaveRingBuffer h \<and>
      (\<exists>g. AllocateRingBuffer k (allocating_helper op h) = Inr (False, g) \<and> \<not> usable g) \<and>
      (\<exists>i is. create_ids (command_buffer h) = i # is \<and>
         (i < 0 \<or>
          (\<exists>r rs. replies (command_buffer h) = r # rs \<and>
             num_ring_buffer_entries k (ring_buffer_size (allocating_helper op h))
               > state_num_entries r))))"
proof (intro conjI allI impI)
  show "usable (CommandBufferHelper cb now gen)" by (simp add: CommandBufferHelper_def)
  show "\<not> usable h'" if "\<not> usable h \<and> run_all k ops h = Inr h'" for ops h'
    using that run_all_usable_mono [of k ops h h'] by blast
  show "AllocateRingBuffer k h = Inr (False, h)" if "\<not> usable h"
    using that by (rule AllocateRingBuffer_unusable)
  show "\<exists>h'. AllocateRingBuffer k h = Inr (False, h') \<and> \<not> usable h' \<and>
               AllocateRingBuffer k h' = Inr (False, h')"
    if "usable h \<and> \<not> HaveRingBuffer h \<and> create_ids (command_buffer h) = i # is \<and> i < 0"
    for i "is"
  proof -
    from that AllocateRingBuffer_create_fails [of h i "is" k]
    obtain h' where a: "AllocateRingBuffer k h = Inr (False, h')" and u: "\<not> usable h'"
      by auto
    with AllocateRingBuffer_unusable [OF u, of k] show ?thesis by blast
  qed
  show "\<exists>h'. AllocateRingBuffer k h = Inr (False, h') \<and> \<not> usable h'"
    if "usable h \<and> \<not> HaveRingBuffer h \<and>
        create_ids (command_buffer h) = i # is \<and> 0 \<le> i \<and>
        replies (command_buffer h) = r # rs \<and> kEntrySize k \<noteq> 0 \<and>
        num_ring_buffer_entries k (ring_buffer_size h) > state_num_entries r"
    for i "is" r rs
    using that AllocateRingBuffer_too_small [of h i "is" r rs k] by blast
  show "usable h'" if "usable h \<and> HaveRingBuffer h \<and> run k op h = Inr h'" for op h'
    using that run_usable_kept [of k op h h'] by blast
  show "usable h' = usable h" if "\<not> allocates op \<and> run k op h = Inr h'" for op h'
    using that run_usable_same [of op k h h'] by blast
next
  fix op h' assume a: "usable h \<and> run k op h = Inr h' \<and> \<not> usable h'"
  from a run_usable_lost [of k op h h']
  obtain b g where al: "allocates op"
    and ar: "AllocateRingBuffer k (allocating_helper op h) = Inr (b, g)" and ug: "\<not> usable g"
    by blast
  from a have u: "usable (allocating_helper op h)" by (simp add: allocating_helper_same)
  note l = AllocateRingBuffer_lost [OF ar u ug]
  show "allocates op" by (fact al)
  show "\<not> HaveRingBuffer h" using l by (simp add: allocating_helper_same)
  show "\<exists>g. AllocateRingBuffer k (allocating_helper op h) = Inr (False, g) \<and> \<not> usable g"
    using ar ug l by auto
  show "\<exists>i is. create_ids (command_buffer h) = i # is \<and>
         (i < 0 \<or>
          (\<exists>r rs. replies (command_buffer h) = r # rs \<and>
             num_ring_buffer_entries k (ring_buffer_size (allocating_helper op h))
               > state_num_entries r))"
    using l by (simp add: allocating_helper_same)
qed

theorem usable_one_way_witness:
  "usable (CommandBufferHelper
      \<lparr>last_state = answer 0 0 0, calls = [], create_ids = [- 1, 1],
       replies = [answer 0 0 0]\<rparr> 100 0) \<and>
   \<not> HaveRingBuffer (CommandBufferHelper
      \<lparr>last_state = answer 0 0 0, calls = [], create_ids = [- 1, 1],
       replies = [answer 0 0 0]\<rparr> 100 0) \<and>
   (\<exists>h'. AllocateRingBuffer example_constants
            (CommandBufferHelper
               \<lparr>last_state = answer 0 0 0, calls = [], create_ids = [- 1, 1],
                replies = [answer 0 0 0]\<rparr> 100 0) = Inr (False, h') \<and>
          \<not> usable h' \<and>
          AllocateRingBuffer example_constants h' = Inr (False, h') \<and>
          calls (command_buffer h') = [CreateTransferBufferCall 0]) \<and>
   (\<exists>h'. run example_constants OpIsContextLost
            (CommandBufferHelper
               \<lparr>last_state = answer 0 0 0, calls = [], create_ids = [- 1, 1],
                replies = [answer 0 0 0]\<rparr> 100 0) = Inr h' \<and> usable h') \<and>
   (\<exists>h'. run example_constants OpInsertToken
            (CommandBufferHelper
               \<lparr>last_state = answer 0 0 0, calls = [], create_ids = [- 1, 1],
                replies = [answer 0 0 0]\<rparr> 100 0) = Inr h' \<and> \<not> usable h' \<and>
          calls (command_buffer h') = [CreateTransferBufferCall 0]) \<and>
   usable (ring8 3 0 (service_at 0 0 [answer 1 0 7])) \<and>
   HaveRingBuffer (ring8 3 0 (service_at 0 0 [answer 1 0 7])) \<and>
   (\<exists>h'. run example_constants OpFlushSync (ring8 3 0 (service_at 0 0 [answer 1 0 7]))
            = Inr h' \<and> usable h')"
proof -
  let ?a = "CommandBufferHelper
      \<lparr>last_state = answer 0 0 0, calls = [], create_ids = [- 1, 1],
       replies = [answer 0 0 0]\<rparr> 100 0"
  let ?b = "ring8 3 0 (service_at 0 0 [answer 1 0 7])"
  have a: "usable ?a \<and> \<not> HaveRingBuffer ?a \<and>
      create_ids (command_buffer ?a) = (- 1) # [1] \<and> (- 1 :: int) < 0"
    by (simp add: example_defs HaveRingBuffer_def)
  note fails = usable_one_way [of _ _ _ ?a example_constants,
      THEN conjunct2, THEN conjunct2, THEN conjunct2, THEN conjunct1, rule_format, of "- 1" "[1]"]
  from a fails
  obtain h' where al: "AllocateRingBuffer example_constants ?a = Inr (False, h')"
    and u: "\<not> usable h'" and al2: "AllocateRingBuffer example_constants h' = Inr (False, h')"
    by blast
  have "AllocateRingBuffer example_constants ?a =
      Inr (False, ?a\<lparr>command_buffer :=
              \<lparr>last_state = answer 0 0 0, calls = [CreateTransferBufferCall 0],
               create_ids = [1], replies = [answer 0 0 0]\<rparr>, usable := False\<rparr>)"
    by (simp add: alloc_defs example_defs run_defs)
  with al have "calls (command_buffer h') = [CreateTransferBufferCall 0]" by auto
  with al u al2 have A: "\<exists>h'. AllocateRingBuffer example_constants ?a = Inr (False, h') \<and>
          \<not> usable h' \<and> AllocateRingBuffer example_constants h' = Inr (False, h') \<and>
          calls (command_buffer h') = [CreateTransferBufferCall 0]" by blast
  have "\<exists>h'. run example_constants OpIsContextLost ?a = Inr h'" by simp
  then obtain c where rc: "run example_constants OpIsContextLost ?a = Inr c" by blast
  note same = usable_one_way [of _ _ _ ?a example_constants,
      THEN conjunct2, THEN conjunct2, THEN conjunct2, THEN conjunct2, THEN conjunct2,
      THEN conjunct2, THEN conjunct1, rule_format, of OpIsContextLost c]
  from rc a same have "usable c" by simp
  with rc have C: "\<exists>h'. run example_constants OpIsContextLost ?a = Inr h' \<and> usable h'"
    by blast
  have "\<exists>h'. run example_constants OpInsertToken ?a = Inr h' \<and> \<not> usable h' \<and>
      calls (command_buffer h') = [CreateTransferBufferCall 0]"
    by (simp add: token_defs alloc_defs example_defs run_defs)
  then obtain d where rd: "run example_constants OpInsertToken ?a = Inr d"
    and ud: "\<not> usable d" and cd: "calls (command_buffer d) = [CreateTransferBufferCall 0]"
    by blast
  note lost = usable_one_way [of _ _ _ ?a example_constants,
      THEN conjunct2, THEN conjunct2, THEN conjunct2, THEN conjunct2, THEN conjunct2,
      THEN conjunct2, THEN conjunct2, rule_format, of OpInsertToken d]
  from rd ud a lost have "allocates OpInsertToken \<and> \<not> HaveRingBuffer ?a" by blast
  with rd ud cd have D: "\<exists>h'. run example_constants OpInsertToken ?a = Inr h' \<and>
      \<not> usable h' \<and> calls (command_buffer h') = [CreateTransferBufferCall 0]"
    by blast
  have b: "usable ?b" "HaveRingBuffer ?b"
    by (simp_all add: example_defs HaveRingBuffer_def)
  have "\<exists>h'. run example_constants OpFlushSync ?b = Inr h'"
    by (simp add: alloc_defs example_defs run_defs)
  then obtain g where r: "run example_constants OpFlushSync ?b = Inr g" by blast
  note kept = usable_one_way [of _ _ _ ?b example_constants,
      THEN conjunct2, THEN conjunct2, THEN conjunct2, THEN conjunct2, THEN conjunct2,
      THEN conjunct1, rule_format, of OpFlushSync g]
  from r b kept have "usable g" by blast
  with r have B: "\<exists>h'. run example_constants OpFlushSync ?b = Inr h' \<and> usable h'" by blast
  from a A C D b B show ?thesis by blast
qed

text \<open>
  C8 as stated fails: neither an error of the service nor the teardown makes the helper
  unusable. A synchronous flush that the service answers with the error 7 returns false and
  leaves the helper usable; freeing the ring leaves it usable too.
\<close>

theorem usable_one_way_counterexample:
  "FlushSync example_constants (ring8 3 0 (service_at 0 0 [answer 1 0 7])) =
     Inr (False,
          (ring8 3 3 \<lparr>last_state = answer 1 0 7, calls = [FlushSyncCall 3 0],
                      create_ids = [], replies = []\<rparr>)
            \<lparr>immediate_entry_count := 4, last_flush_time := 100, flush_generation := 1\<rparr>) \<and>
   usable ((ring8 3 3 \<lparr>last_state = answer 1 0 7, calls = [FlushSyncCall 3 0],
                      create_ids = [], replies = []\<rparr>)
            \<lparr>immediate_entry_count := 4, last_flush_time := 100, flush_generation := 1\<rparr>) \<and>
   FreeResources example_constants (ring8 3 3 (service_at 3 0 [])) =
     Inr ((ring8 3 3 ((service_at 3 0 [])\<lparr>calls := [DestroyTransferBufferCall 1]\<rparr>))
            \<lparr>ring_buffer_id := - 1\<rparr>) \<and>
   usable ((ring8 3 3 ((service_at 3 0 [])\<lparr>calls := [DestroyTransferBufferCall 1]\<rparr>))
            \<lparr>ring_buffer_id := - 1\<rparr>)"
  by (simp add: alloc_defs example_defs run_defs)

section \<open>Flush\<close>

text \<open>
  C9, as the program has it. With no unsent work (\<open>last_put_sent\<close> equal to \<open>put\<close>, after
  \<open>put\<close> at the capacity is taken as \<open>0\<close>), and also on an unusable helper, \<^verbatim>\<open>Flush\<close> makes
  no call to the channel and changes nothing but the wrap of \<open>put\<close>. On a usable helper
  with unsent work, a \<^verbatim>\<open>Flush\<close> that returns has handed the wrapped \<open>put\<close> to the channel
  in one asynchronous call (no answer of the service is consumed and the state reported last
  is unchanged), has recorded the time and has set \<open>last_put_sent\<close>; and it does return when
  the capacity and the divisors are non-zero.
\<close>

theorem Flush_elision:
  "(last_put_sent h = wrapped_put h \<longrightarrow> Flush k h = Inr (h\<lparr>put := wrapped_put h\<rparr>)) \<and>
   (\<not> usable h \<longrightarrow> Flush k h = Inr (h\<lparr>put := wrapped_put h\<rparr>)) \<and>
   (\<forall>h'. usable h \<and> last_put_sent h \<noteq> wrapped_put h \<and> Flush k h = Inr h' \<longrightarrow>
      command_buffer h' =
        (command_buffer h)\<lparr>calls := calls (command_buffer h) @ [FlushCall (wrapped_put h)]\<rparr> \<and>
      last_flush_time h' = clock_now h \<and> last_put_sent h' = wrapped_put h \<and>
      put h' = wrapped_put h) \<and>
   (kAutoFlushSmall k \<noteq> 0 \<and> kAutoFlushBig k \<noteq> 0 \<and> total_entry_count h \<noteq> 0 \<longrightarrow>
      (\<exists>h'. Flush k h = Inr h'))"
proof (intro conjI allI impI)
  show "Flush k h = Inr (h\<lparr>put := wrapped_put h\<rparr>)" if "last_put_sent h = wrapped_put h"
    using that by (simp add: Flush_def wrapped_put_def Let_def)
  show "Flush k h = Inr (h\<lparr>put := wrapped_put h\<rparr>)" if "\<not> usable h"
    using that by (simp add: Flush_def wrapped_put_def Let_def)
  show "command_buffer h' =
        (command_buffer h)\<lparr>calls := calls (command_buffer h) @ [FlushCall (wrapped_put h)]\<rparr>"
    "last_flush_time h' = clock_now h" "last_put_sent h' = wrapped_put h"
    "put h' = wrapped_put h"
    if "usable h \<and> last_put_sent h \<noteq> wrapped_put h \<and> Flush k h = Inr h'" for h'
    using that Flush_effect [of k h h']
    by (auto simp: wrapped_put_def channel_Flush_def)
  show "\<exists>h'. Flush k h = Inr h'"
    if "kAutoFlushSmall k \<noteq> 0 \<and> kAutoFlushBig k \<noteq> 0 \<and> total_entry_count h \<noteq> 0"
  proof (cases "usable h \<and> last_put_sent h \<noteq> wrapped_put h")
    case False
    then show ?thesis by (auto simp: Flush_def wrapped_put_def Let_def)
  next
    case True
    define h2 where "h2 = h\<lparr>put := wrapped_put h, last_flush_time := clock_now h,
        last_put_sent := wrapped_put h,
        command_buffer := channel_Flush (wrapped_put h) (command_buffer h),
        flush_generation := flush_generation h + 1\<rparr>"
    have "total_entry_count h2 \<noteq> 0" using that by (simp add: h2_def)
    with that CalcImmediateEntries_returns [of k h2 0]
    obtain h' where "CalcImmediateEntries k 0 h2 = Inr h'" by blast
    moreover have "Flush k h = CalcImmediateEntries k 0 h2"
      using True by (auto simp: Flush_def wrapped_put_def Let_def h2_def)
    ultimately show ?thesis by simp
  qed
qed

theorem Flush_elision_witness:
  "last_put_sent (ring8 8 0 (service_at 0 0 [])) = wrapped_put (ring8 8 0 (service_at 0 0 [])) \<and>
   Flush example_constants (ring8 8 0 (service_at 0 0 [])) =
     Inr (ring8 0 0 (service_at 0 0 [])) \<and>
   usable (ring8 3 0 (service_at 0 0 [])) \<and>
   last_put_sent (ring8 3 0 (service_at 0 0 [])) \<noteq> wrapped_put (ring8 3 0 (service_at 0 0 [])) \<and>
   (\<exists>h'. Flush example_constants (ring8 3 0 (service_at 0 0 [])) = Inr h' \<and>
      command_buffer h' = (service_at 0 0 [])\<lparr>calls := [FlushCall 3]\<rparr> \<and>
      last_flush_time h' = 100 \<and> last_put_sent h' = 3)"
proof -
  let ?a = "ring8 8 0 (service_at 0 0 [])"
  let ?b = "ring8 3 0 (service_at 0 0 [])"
  have a: "last_put_sent ?a = wrapped_put ?a" and wa: "wrapped_put ?a = 0"
    by (simp_all add: wrapped_put_def example_defs)
  from Flush_elision [of ?a example_constants] a wa
  have A: "Flush example_constants ?a = Inr (ring8 0 0 (service_at 0 0 []))"
    by (simp add: example_defs)
  have b: "usable ?b" "last_put_sent ?b \<noteq> wrapped_put ?b" and wb: "wrapped_put ?b = 3"
    and nz: "kAutoFlushSmall example_constants \<noteq> 0 \<and> kAutoFlushBig example_constants \<noteq> 0 \<and>
       total_entry_count ?b \<noteq> 0"
    by (simp_all add: wrapped_put_def example_defs)
  from Flush_elision [of ?b example_constants] nz
  obtain h' where f: "Flush example_constants ?b = Inr h'" by blast
  with Flush_elision [of ?b example_constants] b
  have "command_buffer h' =
        (command_buffer ?b)\<lparr>calls := calls (command_buffer ?b) @ [FlushCall (wrapped_put ?b)]\<rparr> \<and>
      last_flush_time h' = clock_now ?b \<and> last_put_sent h' = wrapped_put ?b"
    by blast
  with wb have "command_buffer h' = (service_at 0 0 [])\<lparr>calls := [FlushCall 3]\<rparr> \<and>
      last_flush_time h' = 100 \<and> last_put_sent h' = 3"
    by (simp add: example_defs)
  with f have B: "\<exists>h'. Flush example_constants ?b = Inr h' \<and>
      command_buffer h' = (service_at 0 0 [])\<lparr>calls := [FlushCall 3]\<rparr> \<and>
      last_flush_time h' = 100 \<and> last_put_sent h' = 3" by blast
  from a A b B show ?thesis by blast
qed

text \<open>
  C9 as stated fails on an unusable helper. The run below leaves a helper that is unusable
  (its ring was freed after an error of the service, and the next allocation failed) with
  unsent work (\<open>put = 5\<close>, \<open>last_put_sent = 3\<close>); \<^verbatim>\<open>Flush\<close> then changes nothing:
  no call is made and no time is recorded.
\<close>

theorem Flush_unusable_counterexample:
  "run_all example_constants
       [OpInitialize 32, OpGetSpace 3, OpFlushSync, OpGetSpace 2, OpFreeRingBuffer,
        OpAllocateRingBuffer]
       (CommandBufferHelper
          \<lparr>last_state = answer 0 0 0, calls = [], create_ids = [1, - 1],
           replies = [answer 0 0 0, answer 1 0 7]\<rparr> 100 0) =
     Inr ((ring8 5 3
            \<lparr>last_state = answer 1 0 7,
             calls = [CreateTransferBufferCall 32, SetGetBufferCall 1, GetStateCall,
                      FlushSyncCall 3 0, DestroyTransferBufferCall 1,
                      CreateTransferBufferCall 32],
             create_ids = [], replies = []\<rparr>)
          \<lparr>ring_buffer_id := - 1, usable := False, last_flush_time := 100,
           flush_generation := 1\<rparr>) \<and>
   Flush example_constants
       ((ring8 5 3
            \<lparr>last_state = answer 1 0 7,
             calls = [CreateTransferBufferCall 32, SetGetBufferCall 1, GetStateCall,
                      FlushSyncCall 3 0, DestroyTransferBufferCall 1,
                      CreateTransferBufferCall 32],
             create_ids = [], replies = []\<rparr>)
          \<lparr>ring_buffer_id := - 1, usable := False, last_flush_time := 100,
           flush_generation := 1\<rparr>) =
     Inr ((ring8 5 3
            \<lparr>last_state = answer 1 0 7,
             calls = [CreateTransferBufferCall 32, SetGetBufferCall 1, GetStateCall,
                      FlushSyncCall 3 0, DestroyTransferBufferCall 1,
                      CreateTransferBufferCall 32],
             create_ids = [], replies = []\<rparr>)
          \<lparr>ring_buffer_id := - 1, usable := False, last_flush_time := 100,
           flush_generation := 1\<rparr>)"
  by (simp add: wait_defs alloc_defs example_defs run_defs)

section \<open>Negative tokens\<close>

text \<open>
  C10. \<^verbatim>\<open>WaitForToken\<close> with a negative value returns at once, in every state of the
  helper: the helper and the channel are unchanged. No negative value comes from the counter:
  it starts at \<open>0\<close>, every sequence of operations keeps it between \<open>0\<close> and \<open>0x7FFFFFFF\<close>,
  and so is every value that \<^verbatim>\<open>InsertToken\<close> returns, which is the counter's new value.
\<close>

theorem WaitForToken_negative_returns:
  "(tok < 0 \<longrightarrow> WaitForToken k tok h = Inr h) \<and>
   token (CommandBufferHelper cb now gen) = 0 \<and>
   (0 \<le> token h \<and> token h \<le> 0x7FFFFFFF \<longrightarrow>
      (\<forall>ops h'. run_all k ops h = Inr h' \<longrightarrow> 0 \<le> token h' \<and> token h' \<le> 0x7FFFFFFF) \<and>
      (\<forall>t h'. InsertToken k h = Inr (t, h') \<longrightarrow>
          0 \<le> t \<and> t \<le> 0x7FFFFFFF \<and> token h' = t))"
proof (intro conjI allI impI)
  show "WaitForToken k tok h = Inr h" if "tok < 0"
    using that by (simp add: WaitForToken_def)
  show "token (CommandBufferHelper cb now gen) = 0"
    by (simp add: CommandBufferHelper_def)
  show "0 \<le> token h'" "token h' \<le> 0x7FFFFFFF"
    if r: "0 \<le> token h \<and> token h \<le> 0x7FFFFFFF" and "run_all k ops h = Inr h'" for ops h'
  proof -
    have "run_all k ops g = Inr h' \<Longrightarrow> 0 \<le> token g \<and> token g \<le> 0x7FFFFFFF \<Longrightarrow>
        0 \<le> token h' \<and> token h' \<le> 0x7FFFFFFF" for g
    proof (induction ops arbitrary: g)
      case Nil
      then show ?case by simp
    next
      case (Cons op ops)
      from Cons.prems(1) obtain g1 where r1: "run k op g = Inr g1"
        and rs: "run_all k ops g1 = Inr h'"
        by (auto split: sum.splits)
      from run_token [OF r1] Cons.prems(2) have "0 \<le> token g1 \<and> token g1 \<le> 0x7FFFFFFF"
        by simp
      with Cons.IH [OF rs] show ?case by simp
    qed
    with that show "0 \<le> token h'" "token h' \<le> 0x7FFFFFFF" by blast+
  qed
  show "0 \<le> t" "t \<le> 0x7FFFFFFF" "token h' = t"
    if "0 \<le> token h \<and> token h \<le> 0x7FFFFFFF" and "InsertToken k h = Inr (t, h')" for t h'
    using InsertToken_result [OF that(2)] that(1) token_mask_range [of "token h + 1"]
    by auto
qed

theorem WaitForToken_negative_returns_witness:
  "(- 1 :: int) < 0 \<and>
   WaitForToken example_constants (- 1) (ring8 2 0 (service_at 0 0 [])) =
     Inr (ring8 2 0 (service_at 0 0 [])) \<and>
   0 \<le> token ((ring8 0 0 (service_at 0 0 []))\<lparr>token := 0x7FFFFFFF\<rparr>) \<and>
   token ((ring8 0 0 (service_at 0 0 []))\<lparr>token := 0x7FFFFFFF\<rparr>) \<le> 0x7FFFFFFF \<and>
   (\<exists>t h'. InsertToken example_constants
              ((ring8 0 0 (service_at 0 0 [answer 1 0 0]))\<lparr>token := 0x7FFFFFFF\<rparr>)
              = Inr (t, h') \<and> 0 \<le> t \<and> t \<le> 0x7FFFFFFF \<and> token h' = t)"
proof -
  let ?a = "ring8 2 0 (service_at 0 0 [])"
  let ?b = "(ring8 0 0 (service_at 0 0 [answer 1 0 0]))\<lparr>token := 0x7FFFFFFF\<rparr>"
  from WaitForToken_negative_returns [of "- 1" example_constants ?a]
  have A: "WaitForToken example_constants (- 1) ?a = Inr ?a" by simp
  have r: "0 \<le> token ?b \<and> token ?b \<le> 0x7FFFFFFF" by (simp add: example_defs)
  have "\<exists>t h'. InsertToken example_constants ?b = Inr (t, h')"
    by (simp add: token_defs wait_defs alloc_defs example_defs run_defs)
  then obtain t h' where i: "InsertToken example_constants ?b = Inr (t, h')" by blast
  with WaitForToken_negative_returns [of 0 example_constants ?b] r
  have "0 \<le> t \<and> t \<le> 0x7FFFFFFF \<and> token h' = t" by blast
  with i have B: "\<exists>t h'. InsertToken example_constants ?b = Inr (t, h') \<and>
      0 \<le> t \<and> t \<le> 0x7FFFFFFF \<and> token h' = t" by blast
  from A B show ?thesis by (simp add: example_defs)
qed

end
